theory Spec2Isabelle
  imports Main "HOL-Library.AList"
begin

section \<open>The crossword constraint solver of generate.py\<close>

text \<open>
  The class \<open>CrosswordCreator\<close> keeps a dictionary \<open>self.domains\<close> from variables to
  sets of words, and searches for an assignment, a dictionary from variables to words.
  Here a dictionary is an association list in insertion order (looked up with
  \<open>map_of\<close>, assigned with \<open>AList.update\<close>, popped with \<open>AList.delete\<close>), and a Python
  set is a list whose order stands for the order in which the set is iterated; removing
  elements keeps the order of the others. Every mutation is explicit: a method that
  changes \<open>self.domains\<close> or the assignment returns the new one next to its outcome, and
  an exception is the outcome \<open>Inl\<close>.
\<close>

subsection \<open>Data\<close>

text \<open>
  A variable is a slot of the grid: the row \<open>i\<close> and column \<open>j\<close> of its first cell, its
  direction and its length. Two variables are equal when all four agree. A word is a
  string, one \<open>char\<close> for each character.
\<close>

datatype direction = ACROSS | DOWN

datatype variable =
  Variable (var_i: nat) (var_j: nat) (var_direction: direction) (var_length: nat)

type_synonym word = string

datatype error = KeyError | IndexError | ValueError | TypeError

text \<open>
  The class \<open>Crossword\<close> comes from the module \<open>crossword\<close>, which generate.py imports.
  The solver reads four things of it, and they are the fields of this record: the set
  \<open>variables\<close>, the vocabulary \<open>words\<close>, the dictionary \<open>overlaps\<close> from pairs of
  variables to \<open>None\<close> or a pair of offsets, and the method \<open>neighbors\<close>.
\<close>

record crossword =
  variables :: "variable list"
  words :: "word list"
  overlaps :: "((variable \<times> variable) \<times> (nat \<times> nat) option) list"
  neighbors :: "variable \<Rightarrow> variable list"

type_synonym domains = "(variable \<times> word list) list"

type_synonym assignment = "(variable \<times> word) list"

type_synonym arc = "variable \<times> variable"

subsection \<open>Creating the solver\<close>

text \<open>\<open>__init__\<close>: every variable starts with its own copy of the vocabulary.\<close>

definition init_domains :: "crossword \<Rightarrow> domains" where
  "init_domains cw = map (\<lambda>var. (var, words cw)) (variables cw)"

subsection \<open>Node consistency\<close>

text \<open>
  \<open>enforce_node_consistency\<close>: for every key of \<open>self.domains\<close>, every word of its
  domain whose length differs from the variable's is removed.
\<close>

definition enforce_node_consistency :: "domains \<Rightarrow> domains" where
  "enforce_node_consistency ds =
     map (\<lambda>(var, ws). (var, filter (\<lambda>word. length word = var_length var) ws)) ds"

subsection \<open>Arc revision\<close>

text \<open>\<open>word[k]\<close> raises IndexError beyond the end of the word.\<close>

definition char_at :: "word \<Rightarrow> nat \<Rightarrow> error + char" where
  "char_at w k = (if k < length w then Inr (w ! k) else Inl IndexError)"

text \<open>
  \<open>all(x_word[x_index] != y_word[y_index] for y_word in y_words)\<close>: the generator
  indexes both words at each step, and \<open>all\<close> stops at the first pair of equal letters.
\<close>

fun all_differ :: "word \<Rightarrow> nat \<Rightarrow> nat \<Rightarrow> word list \<Rightarrow> error + bool" where
  "all_differ x_word x_index y_index [] = Inr True"
| "all_differ x_word x_index y_index (y_word # y_words) =
     (case char_at x_word x_index of
        Inl e \<Rightarrow> Inl e
      | Inr a \<Rightarrow>
          (case char_at y_word y_index of
             Inl e \<Rightarrow> Inl e
           | Inr b \<Rightarrow>
               if a \<noteq> b then all_differ x_word x_index y_index y_words else Inr False))"

text \<open>
  The loop of \<open>revise\<close> over \<open>self.domains[x]\<close>, which collects \<open>removed_x_words\<close>.
  \<open>self.domains[y]\<close> is looked up in each round, so a missing \<open>y\<close> raises KeyError only
  when the domain of \<open>x\<close> has a word.
\<close>

fun removed_x_words :: "domains \<Rightarrow> variable \<Rightarrow> nat \<Rightarrow> nat \<Rightarrow> word list \<Rightarrow> error + word list" where
  "removed_x_words ds y x_index y_index [] = Inr []"
| "removed_x_words ds y x_index y_index (x_word # rest) =
     (case map_of ds y of
        None \<Rightarrow> Inl KeyError
      | Some dy \<Rightarrow>
          (case all_differ x_word x_index y_index (removeAll x_word dy) of
             Inl e \<Rightarrow> Inl e
           | Inr unsupported \<Rightarrow>
               (case removed_x_words ds y x_index y_index rest of
                  Inl e \<Rightarrow> Inl e
                | Inr removed \<Rightarrow> Inr (if unsupported then x_word # removed else removed))))"

text \<open>
  \<open>revise(x, y)\<close>. Every exception is raised before the one statement that changes
  \<open>self.domains\<close>, so an exception leaves the domains as they were.
\<close>

definition revise :: "crossword \<Rightarrow> domains \<Rightarrow> variable \<Rightarrow> variable \<Rightarrow> (error + bool) \<times> domains" where
  "revise cw ds x y =
     (case map_of (overlaps cw) (x, y) of
        None \<Rightarrow> (Inl KeyError, ds)
      | Some None \<Rightarrow> (Inr False, ds)
      | Some (Some (x_index, y_index)) \<Rightarrow>
          (case map_of ds x of
             None \<Rightarrow> (Inl KeyError, ds)
           | Some dx \<Rightarrow>
               (case removed_x_words ds y x_index y_index dx of
                  Inl e \<Rightarrow> (Inl e, ds)
                | Inr removed \<Rightarrow>
                    (Inr (removed \<noteq> []),
                     AList.update x (filter (\<lambda>w. w \<notin> set removed) dx) ds))))"

subsection \<open>Arc consistency\<close>

text \<open>The number of words in all domains: what the loop of \<open>ac3\<close> uses up.\<close>

definition total_size :: "domains \<Rightarrow> nat" where
  "total_size ds = sum_list (map (\<lambda>(var, ws). length ws) ds)"

text \<open>
  The loop \<open>while arcs:\<close> of \<open>ac3\<close>. \<open>arcs.pop()\<close> takes the last element of the Python
  list and \<open>arcs.append\<close> adds behind it, so the work list is kept here with its last
  element first: \<open>pop\<close> takes the head, and the arcs appended in one round come out in
  front, the last appended first.
\<close>

function ac3_while :: "crossword \<Rightarrow> domains \<Rightarrow> arc list \<Rightarrow> (error + bool) \<times> domains" where
  "ac3_while cw ds [] = (Inr True, ds)"
| "ac3_while cw ds ((x, y) # arcs) =
     (case revise cw ds x y of
        (Inl e, ds') \<Rightarrow> (Inl e, ds')
      | (Inr revised, ds') \<Rightarrow>
          if revised then
            (case map_of ds' x of
               None \<Rightarrow> (Inl KeyError, ds')
             | Some dx \<Rightarrow>
                 if dx = [] then (Inr False, ds')
                 else ac3_while cw ds'
                        (rev (map (\<lambda>x_neighbours. (x_neighbours, x)) (removeAll y (neighbors cw x))) @ arcs))
          else ac3_while cw ds' arcs)"
  by pat_completeness auto

text \<open>
  \<open>ac3(arcs)\<close>: an empty list succeeds at once, and without a list the arcs are the
  keys of \<open>overlaps\<close>, in the order of the dictionary.
\<close>

definition ac3 :: "crossword \<Rightarrow> domains \<Rightarrow> arc list option \<Rightarrow> (error + bool) \<times> domains" where
  "ac3 cw ds arcs =
     (case arcs of
        Some [] \<Rightarrow> (Inr True, ds)
      | None \<Rightarrow> ac3_while cw ds (rev (map fst (overlaps cw)))
      | Some given \<Rightarrow> ac3_while cw ds (rev given))"

subsection \<open>Evaluating an assignment\<close>

text \<open>
  \<open>assignment_complete\<close>: every key of \<open>self.domains\<close> is bound, and no bound word is
  empty (\<open>if not value\<close>).
\<close>

definition assignment_complete :: "domains \<Rightarrow> assignment \<Rightarrow> bool" where
  "assignment_complete ds a =
     (list_all (\<lambda>variable. variable \<in> fst ` set a) (map fst ds)
      \<and> list_all (\<lambda>(variable, value). value \<noteq> []) a)"

text \<open>
  The third loop of \<open>consistent\<close>, for one bound variable: each of its neighbours that
  is bound too must carry the same letter at the overlap. Unpacking the overlap \<open>None\<close>
  of a neighbour raises TypeError.
\<close>

fun neighbours_agree :: "crossword \<Rightarrow> assignment \<Rightarrow> variable \<Rightarrow> word \<Rightarrow> variable list \<Rightarrow> error + bool" where
  "neighbours_agree cw a variable value [] = Inr True"
| "neighbours_agree cw a variable value (neighbour # rest) =
     (case map_of a neighbour of
        None \<Rightarrow> neighbours_agree cw a variable value rest
      | Some neighbour_value \<Rightarrow>
          (case map_of (overlaps cw) (variable, neighbour) of
             None \<Rightarrow> Inl KeyError
           | Some None \<Rightarrow> Inl TypeError
           | Some (Some (variable_index, neighbour_index)) \<Rightarrow>
               (case char_at value variable_index of
                  Inl e \<Rightarrow> Inl e
                | Inr c \<Rightarrow>
                    (case char_at neighbour_value neighbour_index of
                       Inl e \<Rightarrow> Inl e
                     | Inr d \<Rightarrow>
                         if c \<noteq> d then Inr False
                         else neighbours_agree cw a variable value rest))))"

fun items_agree :: "crossword \<Rightarrow> assignment \<Rightarrow> assignment \<Rightarrow> error + bool" where
  "items_agree cw a [] = Inr True"
| "items_agree cw a ((variable, value) # items) =
     (case neighbours_agree cw a variable value (neighbors cw variable) of
        Inl e \<Rightarrow> Inl e
      | Inr agree \<Rightarrow> if agree then items_agree cw a items else Inr False)"

text \<open>
  \<open>consistent\<close>: the bound words are pairwise distinct, each has the length of its
  variable, and bound neighbours agree.
\<close>

definition consistent :: "crossword \<Rightarrow> assignment \<Rightarrow> error + bool" where
  "consistent cw a =
     (if \<not> distinct (map snd a) then Inr False
      else if \<not> list_all (\<lambda>(variable, value). var_length variable = length value) a then Inr False
      else items_agree cw a a)"

subsection \<open>Ordering the values, selecting a variable\<close>

text \<open>
  \<open>order_domain_values\<close>. For each value the loop counts the bound neighbours whose
  domain holds the value, and unpacks the overlap with each bound neighbour. The count
  is kept in a dictionary and never read: \<open>sorted\<close> runs over the keys of that
  dictionary, the words, and its key \<open>item[1]\<close> is the second letter of the word.
  \<open>sorted\<close> computes the key of every word before it compares any, and it is stable.
\<close>

fun elimination_count :: "crossword \<Rightarrow> domains \<Rightarrow> assignment \<Rightarrow> variable \<Rightarrow> word \<Rightarrow> variable list \<Rightarrow> error + nat" where
  "elimination_count cw ds a var value [] = Inr 0"
| "elimination_count cw ds a var value (neighbor # rest) =
     (if neighbor \<in> fst ` set a then
        (case map_of ds neighbor of
           None \<Rightarrow> Inl KeyError
         | Some dn \<Rightarrow>
             (case map_of (overlaps cw) (var, neighbor) of
                None \<Rightarrow> Inl KeyError
              | Some None \<Rightarrow> Inl TypeError
              | Some (Some (var_index, neighbor_index)) \<Rightarrow>
                  (case elimination_count cw ds a var value rest of
                     Inl e \<Rightarrow> Inl e
                   | Inr n \<Rightarrow> Inr (if value \<in> set dn then n + 1 else n))))
      else elimination_count cw ds a var value rest)"

fun domain_values_with_elimination_count ::
  "crossword \<Rightarrow> domains \<Rightarrow> assignment \<Rightarrow> variable \<Rightarrow> word list \<Rightarrow> error + (word \<times> nat) list" where
  "domain_values_with_elimination_count cw ds a var [] = Inr []"
| "domain_values_with_elimination_count cw ds a var (value # rest) =
     (case elimination_count cw ds a var value (neighbors cw var) of
        Inl e \<Rightarrow> Inl e
      | Inr n \<Rightarrow>
          (case domain_values_with_elimination_count cw ds a var rest of
             Inl e \<Rightarrow> Inl e
           | Inr counts \<Rightarrow> Inr ((value, n) # counts)))"

fun sort_keys :: "word list \<Rightarrow> error + (char \<times> word) list" where
  "sort_keys [] = Inr []"
| "sort_keys (item # items) =
     (case char_at item 1 of
        Inl e \<Rightarrow> Inl e
      | Inr k \<Rightarrow>
          (case sort_keys items of
             Inl e \<Rightarrow> Inl e
           | Inr keyed \<Rightarrow> Inr ((k, item) # keyed)))"

definition order_domain_values :: "crossword \<Rightarrow> domains \<Rightarrow> variable \<Rightarrow> assignment \<Rightarrow> error + word list" where
  "order_domain_values cw ds var a =
     (case map_of ds var of
        None \<Rightarrow> Inl KeyError
      | Some domain_values \<Rightarrow>
          (case domain_values_with_elimination_count cw ds a var domain_values of
             Inl e \<Rightarrow> Inl e
           | Inr counts \<Rightarrow>
               (case sort_keys (map fst counts) of
                  Inl e \<Rightarrow> Inl e
                | Inr keyed \<Rightarrow> Inr (map snd (sort_key (\<lambda>(k, item). (of_char k :: nat)) keyed)))))"

text \<open>
  \<open>select_unassigned_variable\<close>. Both calls of \<open>sorted\<close> are stable; the one with
  \<open>reverse=True\<close> sorts by falling degree and keeps the order of equal degrees, which
  is sorting by the negated degree.
\<close>

definition select_unassigned_variable :: "crossword \<Rightarrow> domains \<Rightarrow> assignment \<Rightarrow> error + variable" where
  "select_unassigned_variable cw ds a =
     (if length a \<ge> length ds then Inl ValueError
      else
        let var_with_domain_values =
              map (\<lambda>(var, ws). (var, length ws)) (filter (\<lambda>(var, ws). var \<notin> fst ` set a) ds)
        in
        if length var_with_domain_values = 0 then Inl ValueError
        else if length var_with_domain_values = 1 then Inr (fst (hd var_with_domain_values))
        else
          let sorted_var_with_domain_values = sort_key snd var_with_domain_values;
              min_domain_value = snd (hd sorted_var_with_domain_values);
              min_domain_value_vars =
                map fst (filter (\<lambda>var. snd var = min_domain_value) sorted_var_with_domain_values);
              sorted_vars_by_degree =
                sort_key (\<lambda>item. - int (length (neighbors cw item))) min_domain_value_vars
          in (case sorted_vars_by_degree of [] \<Rightarrow> Inl IndexError | var # _ \<Rightarrow> Inr var))"

subsection \<open>Backtracking search\<close>

text \<open>
  \<open>backtrack\<close> changes the dictionary \<open>assignment\<close> in place and returns it, or
  \<open>None\<close>. The model returns the outcome (an exception, \<open>None\<close>, or the dictionary
  returned) together with the assignment as the call leaves it. \<open>backtrack_for\<close> is the
  loop over the ordered values, from the value it is about to try. \<open>if result:\<close> holds
  for a dictionary that is not empty; \<open>assignment.pop(var)\<close> raises KeyError for a
  variable that is not bound.
\<close>

definition truthy :: "assignment option \<Rightarrow> bool" where
  "truthy result = (case result of None \<Rightarrow> False | Some r \<Rightarrow> r \<noteq> [])"

definition pop :: "assignment \<Rightarrow> variable \<Rightarrow> error + assignment" where
  "pop a var = (if var \<in> fst ` set a then Inr (AList.delete var a) else Inl KeyError)"

function backtrack :: "crossword \<Rightarrow> domains \<Rightarrow> assignment \<Rightarrow> (error + assignment option) \<times> assignment"
  and backtrack_for :: "crossword \<Rightarrow> domains \<Rightarrow> variable \<Rightarrow> word list \<Rightarrow> assignment \<Rightarrow> (error + assignment option) \<times> assignment"
  where
  "backtrack cw ds a =
     (if assignment_complete ds a then (Inr (Some a), a)
      else
        (case select_unassigned_variable cw ds a of
           Inl e \<Rightarrow> (Inl e, a)
         | Inr var \<Rightarrow>
             (case order_domain_values cw ds var a of
                Inl e \<Rightarrow> (Inl e, a)
              | Inr vals \<Rightarrow> backtrack_for cw ds var vals a)))"
| "backtrack_for cw ds var [] a = (Inr None, a)"
| "backtrack_for cw ds var (value # rest) a =
     (case consistent cw (AList.update var value a) of
        Inl e \<Rightarrow> (Inl e, AList.update var value a)
      | Inr ok \<Rightarrow>
          if ok then
            (case backtrack cw ds (AList.update var value a) of
               (Inl e, a') \<Rightarrow> (Inl e, a')
             | (Inr result, a') \<Rightarrow>
                 if truthy result then (Inr result, a')
                 else
                   (case pop a' var of
                      Inl e \<Rightarrow> (Inl e, a')
                    | Inr a'' \<Rightarrow> backtrack_for cw ds var rest a''))
          else
            (case pop (AList.update var value a) var of
               Inl e \<Rightarrow> (Inl e, AList.update var value a)
             | Inr a'' \<Rightarrow> backtrack_for cw ds var rest a''))"
  by pat_completeness auto

text \<open>The number of keys of \<open>self.domains\<close> that the assignment does not bind.\<close>

definition unassigned :: "domains \<Rightarrow> assignment \<Rightarrow> nat" where
  "unassigned ds a = length [v \<leftarrow> map fst ds. v \<notin> fst ` set a]"

subsection \<open>The entry point\<close>

text \<open>
  \<open>solve\<close> calls the three phases one after the other and does not read what \<open>ac3\<close>
  returns. Next to its outcome, the model logs the calls that \<open>solve\<close> made.
\<close>

datatype call = Call_enforce_node_consistency | Call_ac3 | Call_backtrack

definition solve :: "crossword \<Rightarrow> domains \<Rightarrow> (error + assignment option) \<times> call list" where
  "solve cw ds =
     (case ac3 cw (enforce_node_consistency ds) None of
        (Inl e, ds') \<Rightarrow> (Inl e, [Call_enforce_node_consistency, Call_ac3])
      | (Inr arc_consistent, ds') \<Rightarrow>
          (fst (backtrack cw ds' []),
           [Call_enforce_node_consistency, Call_ac3, Call_backtrack]))"

subsection \<open>The calls of the search\<close>


subsection \<open>What the solver expects of the grid\<close>

text \<open>
  Modelled from the spec: the class \<open>Crossword\<close>, which builds the dictionary
  \<open>overlaps\<close> and provides the method \<open>neighbors\<close>, is not part of generate.py. A grid
  is well formed when its overlaps are symmetric (the entry for
  \<open>(y, x)\<close> holds the offsets of \<open>(x, y)\<close> swapped), no slot overlaps itself, and
  \<open>neighbors(y)\<close> holds every variable that overlaps \<open>y\<close>.
\<close>

definition wf_crossword :: "crossword \<Rightarrow> bool" where
  "wf_crossword cw =
     list_all
       (\<lambda>((x, y), overlap).
          case overlap of
            None \<Rightarrow> True
          | Some (x_index, y_index) \<Rightarrow>
              x \<noteq> y \<and> map_of (overlaps cw) (y, x) = Some (Some (y_index, x_index))
              \<and> x \<in> set (neighbors cw y))
       (overlaps cw)"

subsection \<open>Example puzzles\<close>

text \<open>
  A grid of three slots: \<open>slot_A\<close> is the top row, \<open>slot_D\<close> the right column and
  \<open>slot_B\<close> the bottom row. The last letter of \<open>slot_A\<close> is the first of \<open>slot_D\<close>,
  the last letter of \<open>slot_D\<close> is the last of \<open>slot_B\<close>, and the two rows do not meet.
\<close>

definition slot_A :: variable where "slot_A = Variable 0 0 ACROSS 3"
definition slot_D :: variable where "slot_D = Variable 0 2 DOWN 3"
definition slot_B :: variable where "slot_B = Variable 2 0 ACROSS 3"

definition example_neighbors :: "variable \<Rightarrow> variable list" where
  "example_neighbors v =
     (if v = slot_A then [slot_D]
      else if v = slot_D then [slot_A, slot_B]
      else if v = slot_B then [slot_D]
      else [])"

definition example :: crossword where
  "example =
     \<lparr> variables = [slot_A, slot_D, slot_B],
       words = [''CAT'', ''TOP'', ''HIP'', ''AB''],
       overlaps =
         [((slot_A, slot_D), Some (2, 0)), ((slot_A, slot_B), None),
          ((slot_D, slot_A), Some (0, 2)), ((slot_D, slot_B), Some (2, 2)),
          ((slot_B, slot_A), None), ((slot_B, slot_D), Some (2, 2))],
       neighbors = example_neighbors \<rparr>"

definition unsolvable :: crossword where
  "unsolvable = example \<lparr> words := [''CAT'', ''DOG'', ''AB''] \<rparr>"



text \<open>Two rows that do not meet, and a vocabulary of one word for both.\<close>

definition one_word :: crossword where
  "one_word =
     \<lparr> variables = [slot_A, slot_B], words = [''CAT''],
       overlaps = [((slot_A, slot_B), None), ((slot_B, slot_A), None)],
       neighbors = (\<lambda>v. []) \<rparr>"

subsection \<open>Stable arcs\<close>

text \<open>
  The arc \<open>(x, y)\<close> with offsets \<open>(i, j)\<close> is stable when \<open>x\<close> has a domain and every
  word \<open>w\<close> of it reaches offset \<open>i\<close> and finds, in the domain of \<open>y\<close>, another word
  that reaches offset \<open>j\<close> with the same letter there: \<open>revise(x, y)\<close> would keep \<open>w\<close>.
  The invariant of the loop of \<open>ac3\<close>: every overlapping arc is on the work list or
  stable.
\<close>

definition arc_stable :: "domains \<Rightarrow> variable \<Rightarrow> variable \<Rightarrow> nat \<Rightarrow> nat \<Rightarrow> bool" where
  "arc_stable ds x y i j =
     (\<exists>dx. map_of ds x = Some dx \<and>
        (\<forall>w \<in> set dx. i < length w \<and>
           (\<exists>dy. map_of ds y = Some dy \<and>
              (\<exists>w' \<in> set dy. w' \<noteq> w \<and> j < length w' \<and> w ! i = w' ! j))))"

definition arcs_invariant :: "crossword \<Rightarrow> domains \<Rightarrow> arc list \<Rightarrow> bool" where
  "arcs_invariant cw ds arcs =
     (\<forall>x y i j. map_of (overlaps cw) (x, y) = Some (Some (i, j)) \<longrightarrow>
        (x, y) \<in> set arcs \<or> arc_stable ds x y i j)"

section \<open>Termination\<close>

subsection \<open>The loop of ac3\<close>

lemma all_differ_cases:
  "all_differ w a b ys = Inl IndexError \<or> all_differ w a b ys = Inr True \<or> all_differ w a b ys = Inr False"
  by (induction ys) (auto simp: char_at_def split: sum.splits)

lemma removed_x_words_subset:
  "removed_x_words ds y a b dx = Inr removed \<Longrightarrow> set removed \<subseteq> set dx"
  by (induction dx arbitrary: removed) (auto split: option.splits sum.splits if_splits)

lemma total_size_update:
  "map_of ds x = Some dx \<Longrightarrow> total_size (AList.update x d ds) + length dx = total_size ds + length d"
  by (induction ds) (auto simp: total_size_def)

lemma filter_removed_shorter:
  assumes "removed \<noteq> []" and "set removed \<subseteq> set dx"
  shows "length (filter (\<lambda>w. w \<notin> set removed) dx) < length dx"
proof -
  from assms obtain w where "w \<in> set removed" and "w \<in> set dx"
    by (cases removed) auto
  then show ?thesis
    by (intro length_filter_less[of w]) auto
qed

lemma revise_True_smaller:
  assumes "revise cw ds x y = (Inr True, ds')"
  shows "total_size ds' < total_size ds"
proof -
  from assms obtain p dx removed where
    dx: "map_of ds x = Some dx"
    and rm: "removed_x_words ds y (fst p) (snd p) dx = Inr removed"
    and ne: "removed \<noteq> []"
    and ds': "ds' = AList.update x (filter (\<lambda>w. w \<notin> set removed) dx) ds"
    by (auto simp: revise_def split: option.splits sum.splits)
  from ne removed_x_words_subset[OF rm]
  have "length (filter (\<lambda>w. w \<notin> set removed) dx) < length dx"
    by (rule filter_removed_shorter)
  with total_size_update[OF dx, of "filter (\<lambda>w. w \<notin> set removed) dx"] ds'
  show ?thesis by simp
qed

lemma revise_False_same:
  assumes "revise cw ds x y = (Inr False, ds')"
  shows "ds' = ds"
proof -
  have "AList.update x (filter (\<lambda>w. w \<notin> set []) dx) ds = ds" if "map_of ds x = Some dx" for dx
    using that by (simp add: update_triv)
  with assms show ?thesis
    by (auto simp: revise_def split: option.splits sum.splits)
qed

termination ac3_while
proof (relation "measures [\<lambda>(cw, ds, arcs). total_size ds, \<lambda>(cw, ds, arcs). length arcs]")
  show "wf (measures [\<lambda>(cw, ds, arcs). total_size ds, \<lambda>(cw, ds, arcs). length arcs])"
    by simp
next
  fix cw ds x y arcs r ds' revised dx
  assume "(r, ds') = revise cw ds x y" "r = Inr revised" "revised"
  then have "revise cw ds x y = (Inr True, ds')" by simp
  then have "total_size ds' < total_size ds" by (rule revise_True_smaller)
  then show "((cw, ds', rev (map (\<lambda>x_neighbours. (x_neighbours, x)) (removeAll y (neighbors cw x))) @ arcs),
              (cw, ds, (x, y) # arcs))
             \<in> measures [\<lambda>(cw, ds, arcs). total_size ds, \<lambda>(cw, ds, arcs). length arcs]"
    by simp
next
  fix cw ds x y arcs r ds' revised
  assume "(r, ds') = revise cw ds x y" "r = Inr revised" "\<not> revised"
  then have "revise cw ds x y = (Inr False, ds')" by simp
  then have "ds' = ds" by (rule revise_False_same)
  then show "((cw, ds', arcs), (cw, ds, (x, y) # arcs))
             \<in> measures [\<lambda>(cw, ds, arcs). total_size ds, \<lambda>(cw, ds, arcs). length arcs]"
    by simp
qed

subsection \<open>The search\<close>

lemma sort_key_Nil_iff: "sort_key f xs = [] \<longleftrightarrow> xs = []"
  using length_sort[of f xs] by (cases xs) auto

lemma sort_key_hd_in:
  "xs \<noteq> [] \<Longrightarrow> hd (sort_key f xs) \<in> set xs"
  using hd_in_set[of "sort_key f xs"] by (simp add: sort_key_Nil_iff)

lemma sort_key_hd_least:
  assumes "x \<in> set xs"
  shows "f (hd (sort_key f xs)) \<le> f x"
proof -
  have ne: "sort_key f xs \<noteq> []" using assms by (auto simp: sort_key_Nil_iff)
  have "sorted (map f (sort_key f xs))" by simp
  moreover have "f x \<in> set (map f (sort_key f xs))" using assms by simp
  ultimately have "hd (map f (sort_key f xs)) \<le> f x"
    using ne by (cases "sort_key f xs") auto
  then show ?thesis using ne by (simp add: hd_map)
qed

text \<open>The two ways in which \<open>select_unassigned_variable\<close> returns a variable.\<close>

lemma select_unassigned_variable_Inr:
  assumes "select_unassigned_variable cw ds a = Inr var"
  defines "c \<equiv> map (\<lambda>(var, ws). (var, length ws)) (filter (\<lambda>(var, ws). var \<notin> fst ` set a) ds)"
  defines "m \<equiv> map fst (filter (\<lambda>v. snd v = snd (hd (sort_key snd c))) (sort_key snd c))"
  shows "length a < length ds"
    and "c \<noteq> []"
    and "(length c = 1 \<and> var = fst (hd c)) \<or>
         (m \<noteq> [] \<and> var = hd (sort_key (\<lambda>item. - int (length (neighbors cw item))) m))"
proof -
  from assms(1) show "length a < length ds"
    by (auto simp: select_unassigned_variable_def split: if_splits)
  from assms(1) show "c \<noteq> []"
    unfolding c_def by (auto simp: select_unassigned_variable_def Let_def split: if_splits)
  from assms(1) show "(length c = 1 \<and> var = fst (hd c)) \<or>
         (m \<noteq> [] \<and> var = hd (sort_key (\<lambda>item. - int (length (neighbors cw item))) m))"
    unfolding select_unassigned_variable_def Let_def c_def[symmetric] m_def[symmetric]
    by (auto simp: sort_key_Nil_iff split: if_splits list.splits)
qed

lemma select_unassigned_variable_candidates:
  assumes "select_unassigned_variable cw ds a = Inr var"
  shows "var \<in> fst ` set (filter (\<lambda>(var, ws). var \<notin> fst ` set a) ds)"
proof -
  define c where "c = map (\<lambda>(var, ws). (var, length ws)) (filter (\<lambda>(var, ws). var \<notin> fst ` set a) ds)"
  define m where "m = map fst (filter (\<lambda>v. snd v = snd (hd (sort_key snd c))) (sort_key snd c))"
  have sub: "set m \<subseteq> fst ` set c" unfolding m_def by auto
  from select_unassigned_variable_Inr[OF assms, folded c_def, folded m_def]
  have ne: "c \<noteq> []" and
    alt: "(length c = 1 \<and> var = fst (hd c)) \<or>
         (m \<noteq> [] \<and> var = hd (sort_key (\<lambda>item. - int (length (neighbors cw item))) m))"
    by blast+
  have "var \<in> fst ` set c"
  proof -
    from alt consider "var = fst (hd c)"
      | "m \<noteq> []" and "var = hd (sort_key (\<lambda>item. - int (length (neighbors cw item))) m)"
      by blast
    then show ?thesis
    proof cases
      case 1
      with ne show ?thesis by simp
    next
      case 2
      then have "var \<in> set m" by (simp add: sort_key_hd_in)
      with sub show ?thesis by blast
    qed
  qed
  then show ?thesis unfolding c_def by force
qed

lemma select_unassigned_variable_fresh:
  assumes "select_unassigned_variable cw ds a = Inr var"
  shows "var \<in> fst ` set ds" and "var \<notin> fst ` set a"
  using select_unassigned_variable_candidates[OF assms] by force+

lemma unassigned_mono:
  assumes "fst ` set a \<subseteq> fst ` set b"
  shows "unassigned ds b \<le> unassigned ds a"
proof -
  have "length [v \<leftarrow> xs. v \<notin> fst ` set b] \<le> length [v \<leftarrow> xs. v \<notin> fst ` set a]" for xs
    using assms by (induction xs) auto
  then show ?thesis unfolding unassigned_def .
qed

lemma unassigned_update_less:
  assumes "var \<in> fst ` set ds" and "var \<notin> fst ` set a"
  shows "unassigned ds (AList.update var value a) < unassigned ds a"
proof -
  have "length [v \<leftarrow> xs. v \<notin> insert var (fst ` set a)] < length [v \<leftarrow> xs. v \<notin> fst ` set a]"
    if "var \<in> set xs" for xs
    using that assms(2)
  proof (induction xs)
    case Nil
    then show ?case by simp
  next
    case (Cons x xs)
    have le: "length [v \<leftarrow> xs. v \<notin> insert var (fst ` set a)] \<le> length [v \<leftarrow> xs. v \<notin> fst ` set a]"
      by (induction xs) auto
    show ?case
    proof (cases "x = var")
      case True
      with Cons.prems le show ?thesis by (simp add: less_Suc_eq_le)
    next
      case False
      with Cons show ?thesis by auto
    qed
  qed
  moreover have "var \<in> set (map fst ds)" using assms(1) by simp
  ultimately have "length [v \<leftarrow> map fst ds. v \<notin> insert var (fst ` set a)]
      < length [v \<leftarrow> map fst ds. v \<notin> fst ` set a]" by blast
  moreover have "fst ` set (AList.update var value a) = insert var (fst ` set a)"
    by (simp add: dom_update)
  ultimately show ?thesis unfolding unassigned_def by simp
qed

lemma keys_delete: "fst ` set (AList.delete k al) = fst ` set al - {k}"
  by (auto simp: AList.delete_eq)

lemma backtrack_keys_partial:
  "backtrack_backtrack_for_dom (Inl (cw, ds, a)) \<Longrightarrow>
     fst ` set a \<subseteq> fst ` set (snd (backtrack cw ds a))"
  "backtrack_backtrack_for_dom (Inr (cw, ds, var, vals, a)) \<Longrightarrow>
     fst ` set a \<subseteq> insert var (fst ` set (snd (backtrack_for cw ds var vals a)))"
proof (induction cw ds a and cw ds var vals a rule: backtrack_backtrack_for.pinduct)
  case (1 cw ds a)
  show ?case
  proof (cases "assignment_complete ds a")
    case True
    with 1(1) show ?thesis by (simp add: backtrack.psimps)
  next
    case False
    note nc = this
    show ?thesis
    proof (cases "select_unassigned_variable cw ds a")
      case (Inl e)
      with 1(1) nc show ?thesis by (simp add: backtrack.psimps)
    next
      case (Inr var)
      note sel = this
      show ?thesis
      proof (cases "order_domain_values cw ds var a")
        case (Inl e)
        with 1(1) nc sel show ?thesis by (simp add: backtrack.psimps)
      next
        case (Inr vals)
        from 1(2)[OF nc sel Inr]
        have "fst ` set a \<subseteq> insert var (fst ` set (snd (backtrack_for cw ds var vals a)))" .
        moreover have "var \<notin> fst ` set a" using sel by (rule select_unassigned_variable_fresh)
        ultimately have "fst ` set a \<subseteq> fst ` set (snd (backtrack_for cw ds var vals a))" by blast
        with 1(1) nc sel Inr show ?thesis by (simp add: backtrack.psimps)
      qed
    qed
  qed
next
  case (2 cw ds var a)
  then show ?case by (auto simp: backtrack_for.psimps)
next
  case (3 cw ds var "value" rest a)
  let ?a1 = "AList.update var value a"
  have k1: "fst ` set ?a1 = insert var (fst ` set a)" by (simp add: dom_update)
  show ?case
  proof (cases "consistent cw ?a1")
    case (Inl e)
    with 3(1) k1 show ?thesis by (auto simp: backtrack_for.psimps)
  next
    case (Inr ok)
    note con = this
    show ?thesis
    proof (cases ok)
      case False
      show ?thesis
      proof (cases "pop ?a1 var")
        case (Inl e)
        with 3(1) con False k1 show ?thesis by (auto simp: backtrack_for.psimps)
      next
        case (Inr a'')
        then have a'': "a'' = AList.delete var ?a1" by (auto simp: pop_def split: if_splits)
        from 3(4)[OF con False Inr]
        have "fst ` set a'' \<subseteq> insert var (fst ` set (snd (backtrack_for cw ds var rest a'')))" .
        moreover have "fst ` set a \<subseteq> insert var (fst ` set a'')"
          using a'' k1 by (simp add: keys_delete) blast
        ultimately have "fst ` set a \<subseteq> insert var (fst ` set (snd (backtrack_for cw ds var rest a'')))"
          by blast
        with 3(1) con False Inr show ?thesis by (simp add: backtrack_for.psimps)
      qed
    next
      case True
      obtain r a' where bt: "backtrack cw ds ?a1 = (r, a')" by (cases "backtrack cw ds ?a1")
      from 3(2)[OF con True] bt have sub1: "fst ` set ?a1 \<subseteq> fst ` set a'" by simp
      show ?thesis
      proof (cases r)
        case (Inl e)
        with 3(1) con True bt sub1 k1 show ?thesis
          by (auto simp: backtrack_for.psimps)
      next
        case (Inr result)
        note r = this
        show ?thesis
        proof (cases "truthy result")
          case True
          with 3(1) con \<open>ok\<close> bt sub1 k1 r show ?thesis
            by (auto simp: backtrack_for.psimps)
        next
          case False
          note nt = this
          show ?thesis
          proof (cases "pop a' var")
            case (Inl e)
            with 3(1) con \<open>ok\<close> bt sub1 k1 r nt show ?thesis
              by (auto simp: backtrack_for.psimps)
          next
            case (Inr a'')
            then have a'': "a'' = AList.delete var a'" by (auto simp: pop_def split: if_splits)
            from 3(3)[OF con \<open>ok\<close> bt[symmetric] r nt Inr]
            have "fst ` set a'' \<subseteq> insert var (fst ` set (snd (backtrack_for cw ds var rest a'')))" .
            moreover have "fst ` set a \<subseteq> insert var (fst ` set a'')"
              using a'' k1 sub1 by (simp add: keys_delete) blast
            ultimately have "fst ` set a \<subseteq> insert var (fst ` set (snd (backtrack_for cw ds var rest a'')))"
              by blast
            with 3(1) con \<open>ok\<close> bt r nt Inr show ?thesis by (simp add: backtrack_for.psimps)
          qed
        qed
      qed
    qed
  qed
qed

termination backtrack
proof (relation "measures
    [\<lambda>p. case p of Inl (cw, ds, a) \<Rightarrow> 2 * unassigned ds a
                 | Inr (cw, ds, var, vals, a) \<Rightarrow> 2 * unassigned ds (AList.update var [] a) + 1,
     \<lambda>p. case p of Inl (cw, ds, a) \<Rightarrow> 0
                 | Inr (cw, ds, var, vals, a) \<Rightarrow> length vals]")
  show "wf (measures
    [\<lambda>p. case p of Inl (cw, ds, a) \<Rightarrow> 2 * unassigned ds a
                 | Inr (cw, ds, var, vals, a) \<Rightarrow> 2 * unassigned ds (AList.update var [] a) + 1,
     \<lambda>p. case p of Inl (cw, ds, a) \<Rightarrow> 0
                 | Inr (cw, ds, var, vals, a) \<Rightarrow> length vals])"
    by simp
next
  fix cw ds a var vals
  assume "select_unassigned_variable cw ds a = Inr var"
  then have "unassigned ds (AList.update var [] a) < unassigned ds a"
    by (intro unassigned_update_less select_unassigned_variable_fresh)
  then show "(Inr (cw, ds, var, vals, a), Inl (cw, ds, a)) \<in> measures
    [\<lambda>p. case p of Inl (cw, ds, a) \<Rightarrow> 2 * unassigned ds a
                 | Inr (cw, ds, var, vals, a) \<Rightarrow> 2 * unassigned ds (AList.update var [] a) + 1,
     \<lambda>p. case p of Inl (cw, ds, a) \<Rightarrow> 0
                 | Inr (cw, ds, var, vals, a) \<Rightarrow> length vals]"
    by simp
next
  fix cw ds var "value" rest a
  have "unassigned ds (AList.update var value a) \<le> unassigned ds (AList.update var [] a)"
    by (rule unassigned_mono) (simp add: dom_update)
  then show "(Inl (cw, ds, AList.update var value a), Inr (cw, ds, var, value # rest, a)) \<in> measures
    [\<lambda>p. case p of Inl (cw, ds, a) \<Rightarrow> 2 * unassigned ds a
                 | Inr (cw, ds, var, vals, a) \<Rightarrow> 2 * unassigned ds (AList.update var [] a) + 1,
     \<lambda>p. case p of Inl (cw, ds, a) \<Rightarrow> 0
                 | Inr (cw, ds, var, vals, a) \<Rightarrow> length vals]"
    by simp
next
  fix cw ds var "value" rest a r a' result a''
  assume bt: "(r, a') = backtrack cw ds (AList.update var value a)"
    and pop: "pop a' var = Inr a''"
    and dom: "backtrack_backtrack_for_dom (Inl (cw, ds, AList.update var value a))"
  from backtrack_keys_partial(1)[OF dom] bt[symmetric]
  have "fst ` set (AList.update var value a) \<subseteq> fst ` set a'" by simp
  moreover from pop have "a'' = AList.delete var a'" by (auto simp: pop_def split: if_splits)
  ultimately have "fst ` set (AList.update var [] a) \<subseteq> fst ` set (AList.update var [] a'')"
    by (simp add: dom_update keys_delete) blast
  then have "unassigned ds (AList.update var [] a'') \<le> unassigned ds (AList.update var [] a)"
    by (rule unassigned_mono)
  then show "(Inr (cw, ds, var, rest, a''), Inr (cw, ds, var, value # rest, a)) \<in> measures
    [\<lambda>p. case p of Inl (cw, ds, a) \<Rightarrow> 2 * unassigned ds a
                 | Inr (cw, ds, var, vals, a) \<Rightarrow> 2 * unassigned ds (AList.update var [] a) + 1,
     \<lambda>p. case p of Inl (cw, ds, a) \<Rightarrow> 0
                 | Inr (cw, ds, var, vals, a) \<Rightarrow> length vals]"
    by (simp add: le_less)
next
  fix cw ds var "value" rest a a''
  assume pop: "pop (AList.update var value a) var = Inr a''"
  then have "a'' = AList.delete var (AList.update var value a)"
    by (auto simp: pop_def split: if_splits)
  then have "fst ` set (AList.update var [] a) \<subseteq> fst ` set (AList.update var [] a'')"
    by (simp add: dom_update keys_delete)
  then have "unassigned ds (AList.update var [] a'') \<le> unassigned ds (AList.update var [] a)"
    by (rule unassigned_mono)
  then show "(Inr (cw, ds, var, rest, a''), Inr (cw, ds, var, value # rest, a)) \<in> measures
    [\<lambda>p. case p of Inl (cw, ds, a) \<Rightarrow> 2 * unassigned ds a
                 | Inr (cw, ds, var, vals, a) \<Rightarrow> 2 * unassigned ds (AList.update var [] a) + 1,
     \<lambda>p. case p of Inl (cw, ds, a) \<Rightarrow> 0
                 | Inr (cw, ds, var, vals, a) \<Rightarrow> length vals]"
    by (simp add: le_less)
qed

text \<open>
  The equation of \<open>backtrack\<close> has no pattern on its left: as a rewrite rule it would
  unfold without end, so it is used at chosen arguments only.
\<close>

declare backtrack.simps [simp del]

section \<open>The domains under the consistency operations\<close>

lemma map_of_enforce_node_consistency:
  "map_of (enforce_node_consistency ds) v =
     map_option (filter (\<lambda>word. length word = var_length v)) (map_of ds v)"
  by (induction ds) (auto simp: enforce_node_consistency_def)

lemma keys_enforce_node_consistency:
  "map fst (enforce_node_consistency ds) = map fst ds"
  by (induction ds) (auto simp: enforce_node_consistency_def)

lemma revise_result:
  "revise cw ds x y = (r, ds') \<Longrightarrow>
     ds' = ds \<or> (\<exists>dx removed. map_of ds x = Some dx \<and> ds' = AList.update x (filter (\<lambda>w. w \<notin> set removed) dx) ds)"
  by (auto simp: revise_def split: option.splits sum.splits)

lemma keys_update_present:
  "map_of ds x = Some dx \<Longrightarrow> map fst (AList.update x d ds) = map fst ds"
  by (induction ds) auto

lemma keys_revise: "map fst (snd (revise cw ds x y)) = map fst ds"
proof -
  obtain r ds' where eq: "revise cw ds x y = (r, ds')" by (cases "revise cw ds x y")
  from revise_result[OF eq] show ?thesis
    using eq by (auto simp: keys_update_present)
qed

lemma rel_option_subset_refl: "rel_option (\<lambda>d' d. set d' \<subseteq> set d) m m"
  by (cases m) auto

lemma rel_option_subset_trans:
  "rel_option (\<lambda>d' d. set d' \<subseteq> set (d::'a list)) m2 m1 \<Longrightarrow> rel_option (\<lambda>d' d. set d' \<subseteq> set d) m1 m0
    \<Longrightarrow> rel_option (\<lambda>d' d. set d' \<subseteq> set d) m2 m0"
  by (cases m2; cases m1; cases m0) auto

lemma revise_shrinks:
  "rel_option (\<lambda>d' d. set d' \<subseteq> set d) (map_of (snd (revise cw ds x y)) v) (map_of ds v)"
proof -
  obtain r ds' where eq: "revise cw ds x y = (r, ds')" by (cases "revise cw ds x y")
  from revise_result[OF eq] show ?thesis
    using eq by (auto simp: update_conv' rel_option_subset_refl)
qed

lemma ac3_while_shrinks:
  "rel_option (\<lambda>d' d. set d' \<subseteq> set d) (map_of (snd (ac3_while cw ds arcs)) v) (map_of ds v)"
proof (induction cw ds arcs rule: ac3_while.induct)
  case (1 cw ds)
  show ?case by (simp add: rel_option_subset_refl)
next
  case (2 cw ds x y arcs)
  obtain r ds' where eq: "revise cw ds x y = (r, ds')" by (cases "revise cw ds x y")
  have step: "rel_option (\<lambda>d' d. set d' \<subseteq> set d) (map_of ds' v) (map_of ds v)"
    using revise_shrinks[of cw ds x y v] eq by simp
  show ?case
  proof (cases r)
    case (Inl e)
    with eq step show ?thesis by simp
  next
    case (Inr revised)
    show ?thesis
    proof (cases revised)
      case False
      from "2.IH"(2)[OF eq[symmetric] Inr False] step eq Inr False
      show ?thesis by (auto intro: rel_option_subset_trans)
    next
      case True
      show ?thesis
      proof (cases "map_of ds' x")
        case None
        with eq Inr True step show ?thesis by simp
      next
        case (Some dx)
        show ?thesis
        proof (cases "dx = []")
          case True
          with eq Inr \<open>revised\<close> Some step show ?thesis by simp
        next
          case False
          from "2.IH"(1)[OF eq[symmetric] Inr \<open>revised\<close> Some False] step eq Inr \<open>revised\<close> Some False
          show ?thesis by (auto intro: rel_option_subset_trans)
        qed
      qed
    qed
  qed
qed

lemma keys_ac3_while: "map fst (snd (ac3_while cw ds arcs)) = map fst ds"
proof (induction cw ds arcs rule: ac3_while.induct)
  case (1 cw ds)
  show ?case by simp
next
  case (2 cw ds x y arcs)
  obtain r ds' where eq: "revise cw ds x y = (r, ds')" by (cases "revise cw ds x y")
  have step: "map fst ds' = map fst ds"
    using keys_revise[of cw ds x y] eq by simp
  show ?case
  proof (cases r)
    case (Inl e)
    with eq step show ?thesis by simp
  next
    case (Inr revised)
    show ?thesis
    proof (cases revised)
      case False
      from "2.IH"(2)[OF eq[symmetric] Inr False] step eq Inr False
      show ?thesis by auto
    next
      case True
      show ?thesis
      proof (cases "map_of ds' x")
        case None
        with eq Inr True step show ?thesis by simp
      next
        case (Some dx)
        show ?thesis
        proof (cases "dx = []")
          case True
          with eq Inr \<open>revised\<close> Some step show ?thesis by simp
        next
          case False
          from "2.IH"(1)[OF eq[symmetric] Inr \<open>revised\<close> Some False] step eq Inr \<open>revised\<close> Some False
          show ?thesis by auto
        qed
      qed
    qed
  qed
qed

lemma ac3_shrinks:
  "rel_option (\<lambda>d' d. set d' \<subseteq> set d) (map_of (snd (ac3 cw ds arcs)) v) (map_of ds v)"
  by (auto simp: ac3_def ac3_while_shrinks rel_option_subset_refl split: option.splits list.splits)

lemma keys_ac3: "map fst (snd (ac3 cw ds arcs)) = map fst ds"
  by (auto simp: ac3_def keys_ac3_while split: option.splits list.splits)

section \<open>Properties\<close>

subsection \<open>Node consistency\<close>

text \<open>
  C5: after \<open>enforce_node_consistency\<close>, the domain of every variable \<open>v\<close> holds exactly
  the words of its previous domain whose length is \<open>v.length\<close>, in their previous order;
  a variable without a domain still has none.
\<close>

theorem enforce_node_consistency_exact:
  "map_of (enforce_node_consistency ds) v =
     map_option (filter (\<lambda>word. length word = var_length v)) (map_of ds v)"
  by (rule map_of_enforce_node_consistency)

subsection \<open>Domains only shrink\<close>

text \<open>
  C9: after one call of \<open>enforce_node_consistency\<close>, of \<open>revise(x, y)\<close> or of
  \<open>ac3(arcs)\<close>, whatever its outcome, every variable has a domain exactly when it
  had one before, and that domain is a subset of the one before.
\<close>

theorem domains_only_shrink:
  "rel_option (\<lambda>d' d. set d' \<subseteq> set d) (map_of (enforce_node_consistency ds) v) (map_of ds v)
   \<and> rel_option (\<lambda>d' d. set d' \<subseteq> set d) (map_of (snd (revise cw ds x y)) v) (map_of ds v)
   \<and> rel_option (\<lambda>d' d. set d' \<subseteq> set d) (map_of (snd (ac3 cw ds arcs)) v) (map_of ds v)"
proof -
  have "rel_option (\<lambda>d' d. set d' \<subseteq> set d) (map_of (enforce_node_consistency ds) v) (map_of ds v)"
    by (cases "map_of ds v") (auto simp: map_of_enforce_node_consistency)
  then show ?thesis
    using revise_shrinks ac3_shrinks by blast
qed

subsection \<open>Arc revision\<close>

lemma all_differ_True:
  "all_differ w i j ys = Inr True \<Longrightarrow> w' \<in> set ys \<Longrightarrow> i < length w \<and> j < length w' \<and> w ! i \<noteq> w' ! j"
  by (induction ys) (auto simp: char_at_def split: if_splits)

lemma all_differ_False:
  "all_differ w i j ys = Inr False \<Longrightarrow> i < length w \<and> (\<exists>w' \<in> set ys. j < length w' \<and> w ! i = w' ! j)"
  by (induction ys) (auto simp: char_at_def split: if_splits)

lemma all_differ_in_range:
  "i < length w \<Longrightarrow> \<forall>w' \<in> set ys. j < length w' \<Longrightarrow>
     all_differ w i j ys = Inr (\<forall>w' \<in> set ys. w ! i \<noteq> w' ! j)"
  by (induction ys) (auto simp: char_at_def)

lemma removed_x_words_Inr:
  assumes "removed_x_words ds y i j dx = Inr removed" and "map_of ds y = Some dy"
  shows "removed = filter (\<lambda>w. all_differ w i j (removeAll w dy) = Inr True) dx"
    and "\<forall>w \<in> set dx. \<exists>b. all_differ w i j (removeAll w dy) = Inr b"
  using assms by (induction dx arbitrary: removed) (auto split: sum.splits if_splits)

lemma removed_x_words_needs_y:
  "removed_x_words ds y i j dx = Inr removed \<Longrightarrow> dx \<noteq> [] \<Longrightarrow> \<exists>dy. map_of ds y = Some dy"
  by (cases dx) (auto split: option.splits)

lemma removed_x_words_in_range:
  assumes "map_of ds y = Some dy"
    and "\<forall>w \<in> set dx. i < length w" and "\<forall>w' \<in> set dy. j < length w'"
  shows "removed_x_words ds y i j dx =
           Inr (filter (\<lambda>w. \<not> (\<exists>w' \<in> set dy. w' \<noteq> w \<and> w ! i = w' ! j)) dx)"
  using assms(2)
proof (induction dx)
  case Nil
  show ?case by simp
next
  case (Cons w dx)
  have "all_differ w i j (removeAll w dy) = Inr (\<forall>w' \<in> set (removeAll w dy). w ! i \<noteq> w' ! j)"
    using Cons.prems assms(3) by (intro all_differ_in_range) auto
  moreover have "(\<forall>w' \<in> set (removeAll w dy). w ! i \<noteq> w' ! j) \<longleftrightarrow>
      \<not> (\<exists>w' \<in> set dy. w' \<noteq> w \<and> w ! i = w' ! j)" by auto
  ultimately show ?case using Cons assms(1) by simp
qed

lemma filter_not_in_filter:
  "filter (\<lambda>w. w \<notin> set (filter (\<lambda>w. \<not> P w) dx)) dx = filter P dx"
  by (rule filter_cong) auto

lemma revise_overlap:
  assumes "map_of (overlaps cw) (x, y) = Some (Some (i, j))" and "map_of ds x = Some dx"
    and "removed_x_words ds y i j dx = Inr removed"
  shows "revise cw ds x y = (Inr (removed \<noteq> []), AList.update x (filter (\<lambda>w. w \<notin> set removed) dx) ds)"
  using assms by (simp add: revise_def)

text \<open>
  C3, as amended: if \<open>overlaps[u, v]\<close> is \<open>None\<close>, \<open>revise(u, v)\<close> changes no domain and
  returns False. If \<open>overlaps[x, y]\<close> is \<open>(i, j)\<close>, both variables have a domain, every
  word of the domain of \<open>x\<close> has a letter at \<open>i\<close> and every word of the domain of \<open>y\<close> has
  one at \<open>j\<close>, then \<open>revise(x, y)\<close> keeps in the domain of \<open>x\<close> exactly the words \<open>w\<close>
  for which the domain of \<open>y\<close> has a word \<open>w' \<noteq> w\<close> with \<open>w[i] = w'[j]\<close>, leaves the domain
  of every other variable as it was, and returns True exactly when it removed a word.
\<close>

theorem revise_exact:
  "(map_of (overlaps cw) (u, v) = Some None \<longrightarrow> revise cw ds u v = (Inr False, ds))
   \<and> (map_of (overlaps cw) (x, y) = Some (Some (i, j)) \<and>
      map_of ds x = Some dx \<and> map_of ds y = Some dy \<and>
      (\<forall>w \<in> set dx. i < length w) \<and> (\<forall>w' \<in> set dy. j < length w') \<longrightarrow>
      (\<exists>ds'. revise cw ds x y =
               (Inr (\<exists>w \<in> set dx. \<not> (\<exists>w' \<in> set dy. w' \<noteq> w \<and> w ! i = w' ! j)), ds')
          \<and> map_of ds' x = Some (filter (\<lambda>w. \<exists>w' \<in> set dy. w' \<noteq> w \<and> w ! i = w' ! j) dx)
          \<and> (\<forall>z. z \<noteq> x \<longrightarrow> map_of ds' z = map_of ds z)))"
proof (intro conjI impI)
  assume "map_of (overlaps cw) (u, v) = Some None"
  then show "revise cw ds u v = (Inr False, ds)" by (simp add: revise_def)
next
  assume h: "map_of (overlaps cw) (x, y) = Some (Some (i, j)) \<and>
      map_of ds x = Some dx \<and> map_of ds y = Some dy \<and>
      (\<forall>w \<in> set dx. i < length w) \<and> (\<forall>w' \<in> set dy. j < length w')"
  define S where "S = (\<lambda>w. \<exists>w' \<in> set dy. w' \<noteq> w \<and> w ! i = w' ! j)"
  from h have rm: "removed_x_words ds y i j dx = Inr (filter (\<lambda>w. \<not> S w) dx)"
    unfolding S_def by (intro removed_x_words_in_range) auto
  have ne: "filter (\<lambda>w. \<not> S w) dx \<noteq> [] \<longleftrightarrow> (\<exists>w \<in> set dx. \<not> S w)"
    by (simp add: filter_empty_conv)
  have keep: "filter (\<lambda>w. w \<notin> set (filter (\<lambda>w. \<not> S w) dx)) dx = filter S dx"
    by (rule filter_not_in_filter)
  from h have ov: "map_of (overlaps cw) (x, y) = Some (Some (i, j))"
    and dx: "map_of ds x = Some dx" by auto
  have "revise cw ds x y = (Inr (filter (\<lambda>w. \<not> S w) dx \<noteq> []),
       AList.update x (filter (\<lambda>w. w \<notin> set (filter (\<lambda>w. \<not> S w) dx)) dx) ds)"
    by (rule revise_overlap[OF ov dx rm])
  then have "revise cw ds x y = (Inr (\<exists>w \<in> set dx. \<not> S w), AList.update x (filter S dx) ds)"
    unfolding ne keep .
  then have "\<exists>ds'. revise cw ds x y = (Inr (\<exists>w \<in> set dx. \<not> S w), ds')
          \<and> map_of ds' x = Some (filter S dx)
          \<and> (\<forall>z. z \<noteq> x \<longrightarrow> map_of ds' z = map_of ds z)"
    by (simp add: update_conv')
  then show "\<exists>ds'. revise cw ds x y =
               (Inr (\<exists>w \<in> set dx. \<not> (\<exists>w' \<in> set dy. w' \<noteq> w \<and> w ! i = w' ! j)), ds')
          \<and> map_of ds' x = Some (filter (\<lambda>w. \<exists>w' \<in> set dy. w' \<noteq> w \<and> w ! i = w' ! j) dx)
          \<and> (\<forall>z. z \<noteq> x \<longrightarrow> map_of ds' z = map_of ds z)"
    unfolding S_def .
qed

theorem revise_exact_witness:
  "map_of (overlaps example) (slot_A, slot_B) = Some None
   \<and> revise example (enforce_node_consistency (init_domains example)) slot_A slot_B
       = (Inr False, enforce_node_consistency (init_domains example))
   \<and> map_of (overlaps example) (slot_A, slot_D) = Some (Some (2, 0))
   \<and> (\<exists>ds'. revise example (enforce_node_consistency (init_domains example)) slot_A slot_D
              = (Inr True, ds')
         \<and> map_of ds' slot_A = Some [''CAT'']
         \<and> map_of ds' slot_D = Some [''CAT'', ''TOP'', ''HIP''])"
proof -
  let ?ds = "enforce_node_consistency (init_domains example)"
  let ?d = "[''CAT'', ''TOP'', ''HIP'']"
  have h1: "map_of (overlaps example) (slot_A, slot_B) = Some None"
    by code_simp
  have h2: "map_of (overlaps example) (slot_A, slot_D) = Some (Some (2, 0)) \<and>
      map_of ?ds slot_A = Some ?d \<and> map_of ?ds slot_D = Some ?d \<and>
      (\<forall>w \<in> set ?d. 2 < length w) \<and> (\<forall>w' \<in> set ?d. 0 < length w')"
    by code_simp
  have ne: "slot_D \<noteq> slot_A" by code_simp
  have r: "(\<exists>w \<in> set ?d. \<not> (\<exists>w' \<in> set ?d. w' \<noteq> w \<and> w ! 2 = w' ! 0)) = True"
    by code_simp
  have f: "filter (\<lambda>w. \<exists>w' \<in> set ?d. w' \<noteq> w \<and> w ! 2 = w' ! 0) ?d = [''CAT'']"
    by code_simp
  from revise_exact[of example slot_A slot_B ?ds slot_A slot_D 2 0 ?d ?d] h1 h2
  have "revise example ?ds slot_A slot_B = (Inr False, ?ds)"
    and "\<exists>ds'. revise example ?ds slot_A slot_D =
               (Inr (\<exists>w \<in> set ?d. \<not> (\<exists>w' \<in> set ?d. w' \<noteq> w \<and> w ! 2 = w' ! 0)), ds')
          \<and> map_of ds' slot_A = Some (filter (\<lambda>w. \<exists>w' \<in> set ?d. w' \<noteq> w \<and> w ! 2 = w' ! 0) ?d)
          \<and> (\<forall>z. z \<noteq> slot_A \<longrightarrow> map_of ds' z = map_of ?ds z)"
    by blast+
  with h1 h2 ne show ?thesis unfolding r f by metis
qed

text \<open>
  Before node consistency the vocabulary holds the two-letter word AB, which has no
  letter at offset 2: \<open>revise\<close> raises IndexError and returns nothing.
\<close>

theorem revise_raises_counterexample:
  "revise example (init_domains example) slot_A slot_D = (Inl IndexError, init_domains example)"
  by code_simp

subsection \<open>Selecting a variable\<close>

lemma length_eq_card_keys: "distinct (map fst xs) \<Longrightarrow> length xs = card (fst ` set xs)"
  by (metis distinct_card length_map set_map)

lemma select_unassigned_variable_none_left:
  assumes "distinct (map fst ds)" and "fst ` set ds \<subseteq> fst ` set a"
  shows "select_unassigned_variable cw ds a = Inl ValueError"
proof -
  have "length ds = card (fst ` set ds)" using assms(1) by (rule length_eq_card_keys)
  also have "\<dots> \<le> card (fst ` set a)" using assms(2) by (intro card_mono) auto
  also have "\<dots> \<le> length a" by (metis card_length length_map set_map)
  finally show ?thesis by (simp add: select_unassigned_variable_def)
qed

lemma select_unassigned_variable_some_left:
  assumes dds: "distinct (map fst ds)" and da: "distinct (map fst a)"
    and sub: "fst ` set a \<subset> fst ` set ds"
  shows "\<exists>var dv. select_unassigned_variable cw ds a = Inr var \<and> var \<notin> fst ` set a
     \<and> map_of ds var = Some dv
     \<and> (\<forall>u du. u \<notin> fst ` set a \<and> map_of ds u = Some du \<longrightarrow>
           length dv \<le> length du
           \<and> (length du = length dv \<longrightarrow> length (neighbors cw u) \<le> length (neighbors cw var)))"
proof -
  define c where "c = map (\<lambda>(var, ws). (var, length ws)) (filter (\<lambda>(var, ws). var \<notin> fst ` set a) ds)"
  define s where "s = sort_key snd c"
  define m where "m = map fst (filter (\<lambda>v. snd v = snd (hd s)) s)"
  define deg where "deg = (\<lambda>item. - int (length (neighbors cw item)))"
  have mem_c: "(u, n) \<in> set c \<longleftrightarrow> (\<exists>du. map_of ds u = Some du \<and> n = length du \<and> u \<notin> fst ` set a)" for u n
    using dds unfolding c_def by (auto simp: image_iff)
  have "card (fst ` set a) < card (fst ` set ds)"
    using sub by (intro psubset_card_mono) auto
  then have len: "length a < length ds"
    using length_eq_card_keys[OF dds] length_eq_card_keys[OF da] by simp
  from sub obtain u0 where "u0 \<in> fst ` set ds" "u0 \<notin> fst ` set a" by blast
  then obtain d0 where "(u0, d0) \<in> set ds" by auto
  with \<open>u0 \<notin> fst ` set a\<close> dds have "(u0, length d0) \<in> set c" by (auto simp: mem_c)
  then have cne: "c \<noteq> []" by auto
  show ?thesis
  proof (cases "length c = 1")
    case True
    then obtain v n where c1: "c = [(v, n)]" by (cases c) (auto simp: length_Suc_conv)
    have sel: "select_unassigned_variable cw ds a = Inr v"
      using len True c1 unfolding select_unassigned_variable_def Let_def c_def[symmetric] by simp
    from c1 have "(v, n) \<in> set c" by simp
    then obtain dv where dv: "map_of ds v = Some dv" "n = length dv" "v \<notin> fst ` set a"
      by (auto simp: mem_c)
    have best: "length dv \<le> length du
           \<and> (length du = length dv \<longrightarrow> length (neighbors cw u) \<le> length (neighbors cw v))"
      if "u \<notin> fst ` set a" "map_of ds u = Some du" for u du
    proof -
      from that have "(u, length du) \<in> set c" by (simp only: mem_c) blast
      with c1 have "u = v" by simp
      with that dv show ?thesis by simp
    qed
    from sel dv(1,3) best show ?thesis by blast
  next
    case False
    have sne: "s \<noteq> []" using cne by (simp add: s_def sort_key_Nil_iff)
    have sets: "set s = set c" by (simp add: s_def)
    have "hd s \<in> set s" using sne by simp
    then have "fst (hd s) \<in> set m" unfolding m_def by force
    then have mne: "m \<noteq> []" by auto
    define var where "var = hd (sort_key deg m)"
    have sel: "select_unassigned_variable cw ds a = Inr var"
    proof -
      from mne have "sort_key deg m \<noteq> []" by (simp add: sort_key_Nil_iff)
      then obtain v rest where "sort_key deg m = v # rest" by (cases "sort_key deg m") auto
      then show ?thesis
        using len False cne
        unfolding select_unassigned_variable_def Let_def c_def[symmetric] s_def[symmetric]
          m_def[symmetric] deg_def[symmetric] var_def
        by simp
    qed
    have "var \<in> set m" unfolding var_def using mne by (rule sort_key_hd_in)
    then obtain n where "(var, n) \<in> set s" "n = snd (hd s)" unfolding m_def by auto
    then obtain dv where dv: "map_of ds var = Some dv" "snd (hd s) = length dv" "var \<notin> fst ` set a"
      using sets by (auto simp: mem_c)
    have best: "length dv \<le> length du
           \<and> (length du = length dv \<longrightarrow> length (neighbors cw u) \<le> length (neighbors cw var))"
      if "u \<notin> fst ` set a" "map_of ds u = Some du" for u du
    proof
      from that have in_c: "(u, length du) \<in> set c" by (simp only: mem_c) blast
      have "snd (hd (sort_key snd c)) \<le> snd (u, length du)"
        using in_c by (rule sort_key_hd_least)
      then show "length dv \<le> length du" using dv(2) by (simp add: s_def)
      show "length du = length dv \<longrightarrow> length (neighbors cw u) \<le> length (neighbors cw var)"
      proof
        assume "length du = length dv"
        with in_c sets dv(2) have "u \<in> set m" unfolding m_def by force
        then have "deg (hd (sort_key deg m)) \<le> deg u" by (rule sort_key_hd_least)
        then show "length (neighbors cw u) \<le> length (neighbors cw var)"
          by (simp add: deg_def var_def)
      qed
    qed
    from sel dv(1,3) best show ?thesis by blast
  qed
qed

text \<open>
  C6: the dictionaries have distinct keys. For an assignment whose keys are a proper
  subset of the keys of \<open>self.domains\<close>, \<open>select_unassigned_variable\<close> returns a
  variable that the assignment does not bind, whose domain is no larger than that of
  any other unbound variable, and which has at least as many neighbours as every
  unbound variable with a domain of the same size. For an assignment that binds every
  key of \<open>self.domains\<close>, it raises ValueError.
\<close>

theorem select_unassigned_variable_choice:
  "distinct (map fst ds) \<Longrightarrow> distinct (map fst a) \<Longrightarrow>
   (fst ` set a \<subset> fst ` set ds \<longrightarrow>
      (\<exists>var dv. select_unassigned_variable cw ds a = Inr var \<and> var \<notin> fst ` set a
         \<and> map_of ds var = Some dv
         \<and> (\<forall>u du. u \<notin> fst ` set a \<and> map_of ds u = Some du \<longrightarrow>
               length dv \<le> length du
               \<and> (length du = length dv \<longrightarrow>
                    length (neighbors cw u) \<le> length (neighbors cw var)))))
   \<and> (fst ` set ds \<subseteq> fst ` set a' \<longrightarrow> select_unassigned_variable cw ds a' = Inl ValueError)"
  using select_unassigned_variable_some_left[of ds a cw]
    select_unassigned_variable_none_left[of ds a' cw] by blast

theorem select_unassigned_variable_choice_witness:
  "distinct (map fst (enforce_node_consistency (init_domains example)))
   \<and> distinct (map fst [(slot_D, ''TOP'')])
   \<and> fst ` set [(slot_D, ''TOP'')] \<subset> fst ` set (enforce_node_consistency (init_domains example))
   \<and> (\<exists>var dv. select_unassigned_variable example
                    (enforce_node_consistency (init_domains example)) [(slot_D, ''TOP'')] = Inr var
         \<and> var \<notin> fst ` set [(slot_D, ''TOP'')]
         \<and> map_of (enforce_node_consistency (init_domains example)) var = Some dv
         \<and> (\<forall>u du. u \<notin> fst ` set [(slot_D, ''TOP'')]
                 \<and> map_of (enforce_node_consistency (init_domains example)) u = Some du \<longrightarrow>
               length dv \<le> length du
               \<and> (length du = length dv \<longrightarrow>
                    length (neighbors example u) \<le> length (neighbors example var))))
   \<and> fst ` set (enforce_node_consistency (init_domains example))
       \<subseteq> fst ` set [(slot_D, ''TOP''), (slot_A, ''CAT''), (slot_B, ''HIP'')]
   \<and> select_unassigned_variable example (enforce_node_consistency (init_domains example))
         [(slot_D, ''TOP''), (slot_A, ''CAT''), (slot_B, ''HIP'')] = Inl ValueError"
proof -
  let ?ds = "enforce_node_consistency (init_domains example)"
  have h1: "distinct (map fst ?ds)" by code_simp
  have h2: "distinct (map fst [(slot_D, ''TOP'')])" by simp
  have h3: "fst ` set [(slot_D, ''TOP'')] \<subset> fst ` set ?ds" by code_simp
  have h4: "fst ` set ?ds \<subseteq> fst ` set [(slot_D, ''TOP''), (slot_A, ''CAT''), (slot_B, ''HIP'')]"
    by code_simp
  note choice = select_unassigned_variable_choice[OF h1 h2, of example
      "[(slot_D, ''TOP''), (slot_A, ''CAT''), (slot_B, ''HIP'')]"]
  show ?thesis
    by (intro conjI h1 h2 h3 h4 mp[OF choice[THEN conjunct1] h3] mp[OF choice[THEN conjunct2] h4])
qed

subsection \<open>The search\<close>

lemma pop_update_fresh:
  "var \<notin> fst ` set a \<Longrightarrow> pop (AList.update var value a) var = Inr a"
  by (simp add: pop_def dom_update delete_update_same)

lemma truthy_Some: "truthy (Some s) \<longleftrightarrow> s \<noteq> []"
  by (simp add: truthy_def)

lemma truthy_None: "\<not> truthy None"
  by (simp add: truthy_def)

text \<open>
  What a call of the search leaves behind: after \<open>None\<close> the assignment is the one of
  the call's entry; a returned dictionary is the assignment itself, it is complete, and
  it passed the consistency check unless it is the untouched argument.
\<close>

lemma search_outcome:
  "backtrack cw ds a = (r, a') \<Longrightarrow>
     (r = Inr None \<longrightarrow> a' = a) \<and>
     (\<forall>s. r = Inr (Some s) \<longrightarrow>
        s = a' \<and> fst ` set a \<subseteq> fst ` set s \<and> assignment_complete ds s \<and>
        (distinct (map fst a) \<longrightarrow> distinct (map fst s)) \<and>
        (s = a \<or> consistent cw s = Inr True))"
  "var \<notin> fst ` set a \<Longrightarrow> backtrack_for cw ds var vals a = (r, a') \<Longrightarrow>
     (r = Inr None \<longrightarrow> a' = a) \<and>
     (\<forall>s. r = Inr (Some s) \<longrightarrow>
        s = a' \<and> s \<noteq> [] \<and> fst ` set a \<subseteq> fst ` set s \<and> assignment_complete ds s \<and>
        (distinct (map fst a) \<longrightarrow> distinct (map fst s)) \<and>
        consistent cw s = Inr True)"
proof (induction cw ds a and cw ds var vals a arbitrary: r a' and r a' rule: backtrack_backtrack_for.induct)
  case (1 cw ds a)
  show ?case
  proof (cases "assignment_complete ds a")
    case True
    with "1.prems" show ?thesis by (auto simp: backtrack.simps[of cw ds a])
  next
    case False
    note nc = this
    show ?thesis
    proof (cases "select_unassigned_variable cw ds a")
      case (Inl e)
      with "1.prems" nc show ?thesis by (auto simp: backtrack.simps[of cw ds a])
    next
      case (Inr var)
      note sel = this
      have fresh: "var \<notin> fst ` set a" using sel by (rule select_unassigned_variable_fresh)
      show ?thesis
      proof (cases "order_domain_values cw ds var a")
        case (Inl e)
        with "1.prems" nc sel show ?thesis by (auto simp: backtrack.simps[of cw ds a])
      next
        case (Inr vals)
        from "1.prems" nc sel Inr have "backtrack_for cw ds var vals a = (r, a')"
          by (simp add: backtrack.simps[of cw ds a])
        from "1.IH"[OF nc sel Inr fresh this] show ?thesis by blast
      qed
    qed
  qed
next
  case (2 cw ds var a)
  then show ?case by auto
next
  case (3 cw ds var "value" rest a)
  let ?a1 = "AList.update var value a"
  note fresh = \<open>var \<notin> fst ` set a\<close>
  note run = \<open>backtrack_for cw ds var (value # rest) a = (r, a')\<close>
  have k1: "fst ` set ?a1 = insert var (fst ` set a)" by (simp add: dom_update)
  have undo: "pop ?a1 var = Inr a" using fresh by (rule pop_update_fresh)
  show ?case
  proof (cases "consistent cw ?a1")
    case (Inl e)
    with run show ?thesis by auto
  next
    case (Inr ok)
    note con = this
    show ?thesis
    proof (cases ok)
      case False
      with run con undo have "backtrack_for cw ds var rest a = (r, a')" by simp
      from "3.IH"(3)[OF con False undo fresh this] show ?thesis .
    next
      case True
      obtain r1 a1 where bt: "backtrack cw ds ?a1 = (r1, a1)" by (cases "backtrack cw ds ?a1")
      note ih1 = "3.IH"(1)[OF con True bt]
      show ?thesis
      proof (cases r1)
        case (Inl e)
        with run con True bt show ?thesis by auto
      next
        case (Inr result)
        note r1 = this
        show ?thesis
        proof (cases result)
          case None
          with ih1 r1 have "a1 = ?a1" by simp
          with run con True bt r1 None undo have "backtrack_for cw ds var rest a = (r, a')"
            by (simp add: truthy_None)
          from "3.IH"(2)[OF con True bt[symmetric] r1 _ _ fresh this] None undo \<open>a1 = ?a1\<close>
          show ?thesis by (simp add: truthy_None)
        next
          case (Some s)
          with ih1 r1 have s: "s = a1" "fst ` set ?a1 \<subseteq> fst ` set s" "assignment_complete ds s"
            "s = ?a1 \<or> consistent cw s = Inr True"
            "distinct (map fst ?a1) \<longrightarrow> distinct (map fst s)" by auto
          have "distinct (map fst a) \<longrightarrow> distinct (map fst ?a1)" by (simp add: distinct_update)
          with s(5) have dk: "distinct (map fst a) \<longrightarrow> distinct (map fst s)" by blast
          from s(2) k1 have sne: "s \<noteq> []" by auto
          from s(4) con True have "consistent cw s = Inr True" by auto
          moreover from run con True bt r1 Some sne have "r = Inr (Some s)" "a' = a1"
            by (auto simp: truthy_Some)
          ultimately show ?thesis using s(1-3) dk sne k1 by auto
        qed
      qed
    qed
  qed
qed

text \<open>
  C8: when \<open>backtrack(assignment)\<close> returns \<open>None\<close>, the assignment is again exactly
  the dictionary of the call's entry, keys, values and order: every binding that the
  call or a nested call made has been popped.
\<close>

theorem backtrack_restores_assignment:
  "backtrack cw ds a = (Inr None, a') \<Longrightarrow> a' = a"
  using search_outcome(1)[of cw ds a "Inr None" a'] by simp

theorem backtrack_restores_assignment_witness:
  "backtrack one_word (init_domains one_word) [(slot_A, ''CAT'')]
     = (Inr None, snd (backtrack one_word (init_domains one_word) [(slot_A, ''CAT'')]))
   \<and> snd (backtrack one_word (init_domains one_word) [(slot_A, ''CAT'')]) = [(slot_A, ''CAT'')]"
proof -
  have h: "backtrack one_word (init_domains one_word) [(slot_A, ''CAT'')]
     = (Inr None, snd (backtrack one_word (init_domains one_word) [(slot_A, ''CAT'')]))"
    by code_simp
  from h backtrack_restores_assignment[OF h] show ?thesis by (rule conjI)
qed

subsection \<open>Ordering the values of a domain with a short word\<close>





lemma assignment_complete_Nil: "assignment_complete ds [] \<longleftrightarrow> ds = []"
  by (cases ds) (auto simp: assignment_complete_def)










subsection \<open>The solution that solve returns\<close>

lemma wf_crossword_overlap:
  assumes "wf_crossword cw" and "map_of (overlaps cw) (x, y) = Some (Some (i, j))"
  shows "x \<noteq> y" and "map_of (overlaps cw) (y, x) = Some (Some (j, i))"
    and "x \<in> set (neighbors cw y)" and "y \<in> set (neighbors cw x)"
proof -
  have entry: "u \<noteq> v \<and> map_of (overlaps cw) (v, u) = Some (Some (q, p)) \<and> u \<in> set (neighbors cw v)"
    if "map_of (overlaps cw) (u, v) = Some (Some (p, q))" for u v p q
  proof -
    from that have "((u, v), Some (p, q)) \<in> set (overlaps cw)" by (rule map_of_SomeD)
    with assms(1) show ?thesis by (auto simp: wf_crossword_def list_all_iff)
  qed
  from entry[OF assms(2)] show "x \<noteq> y" and sym: "map_of (overlaps cw) (y, x) = Some (Some (j, i))"
    and "x \<in> set (neighbors cw y)" by auto
  from entry[OF sym] show "y \<in> set (neighbors cw x)" by auto
qed

lemma neighbours_agree_True:
  assumes "neighbours_agree cw a variable value ns = Inr True"
    and "n \<in> set ns" and "map_of a n = Some nv"
  shows "\<exists>vi ni. map_of (overlaps cw) (variable, n) = Some (Some (vi, ni))
           \<and> vi < length value \<and> ni < length nv \<and> value ! vi = nv ! ni"
  using assms
proof (induction ns)
  case Nil
  then show ?case by simp
next
  case (Cons m ns)
  show ?case
  proof (cases "map_of a m")
    case None
    with Cons show ?thesis by auto
  next
    case (Some mv)
    from Cons.prems(1) Some obtain vi ni where
      ov: "map_of (overlaps cw) (variable, m) = Some (Some (vi, ni))"
      by (auto split: option.splits)
    from Cons.prems(1) Some ov have here: "vi < length value \<and> ni < length mv \<and> value ! vi = mv ! ni"
      and rest: "neighbours_agree cw a variable value ns = Inr True"
      by (auto simp: char_at_def split: if_splits)
    show ?thesis
    proof (cases "n = m")
      case True
      with Some Cons.prems(3) ov here show ?thesis by auto
    next
      case False
      with Cons.prems(2) have "n \<in> set ns" by simp
      from Cons.IH[OF rest this Cons.prems(3)] show ?thesis .
    qed
  qed
qed

lemma items_agree_True:
  "items_agree cw a items = Inr True \<Longrightarrow> (variable, value) \<in> set items \<Longrightarrow>
     neighbours_agree cw a variable value (neighbors cw variable) = Inr True"
proof (induction items)
  case Nil
  then show ?case by simp
next
  case (Cons item items)
  obtain v w where item: "item = (v, w)" by (cases item)
  from Cons.prems(1) item have here: "neighbours_agree cw a v w (neighbors cw v) = Inr True"
    and rest: "items_agree cw a items = Inr True"
    by (auto split: sum.splits if_splits)
  from Cons.prems(2) item consider "(variable, value) = (v, w)" | "(variable, value) \<in> set items"
    by auto
  then show ?case
  proof cases
    case 1
    with here show ?thesis by simp
  next
    case 2
    from Cons.IH[OF rest this] show ?thesis .
  qed
qed

lemma consistent_True:
  assumes "consistent cw a = Inr True"
  shows "distinct (map snd a)" and "items_agree cw a a = Inr True"
  using assms by (auto simp: consistent_def split: if_splits)

lemma consistent_agrees:
  assumes wf: "wf_crossword cw" and con: "consistent cw s = Inr True"
    and ov: "map_of (overlaps cw) (x, y) = Some (Some (i, j))"
    and wx: "map_of s x = Some wx" and wy: "map_of s y = Some wy"
  shows "i < length wx \<and> j < length wy \<and> wx ! i = wy ! j"
proof -
  from wx have "(x, wx) \<in> set s" by (rule map_of_SomeD)
  with consistent_True(2)[OF con]
  have "neighbours_agree cw s x wx (neighbors cw x) = Inr True" by (rule items_agree_True)
  moreover have "y \<in> set (neighbors cw x)" using wf ov by (rule wf_crossword_overlap)
  ultimately obtain vi ni where "map_of (overlaps cw) (x, y) = Some (Some (vi, ni))"
    and "vi < length wx \<and> ni < length wy \<and> wx ! vi = wy ! ni"
    using wy neighbours_agree_True by blast
  with ov show ?thesis by simp
qed

lemma assignment_complete_keys:
  "assignment_complete ds s \<Longrightarrow> v \<in> fst ` set ds \<Longrightarrow> v \<in> fst ` set s"
  by (auto simp: assignment_complete_def list_all_iff)

lemma solve_Some:
  assumes "fst (solve cw ds) = Inr (Some s)"
  shows "\<exists>b ds'. ac3 cw (enforce_node_consistency ds) None = (Inr b, ds')
          \<and> fst (backtrack cw ds' []) = Inr (Some s)"
proof -
  obtain r ds' where ac: "ac3 cw (enforce_node_consistency ds) None = (r, ds')"
    by (cases "ac3 cw (enforce_node_consistency ds) None")
  with assms show ?thesis by (cases r) (auto simp: solve_def)
qed

text \<open>
  C2: on a well-formed grid, every assignment that \<open>solve\<close> returns binds every key of
  \<open>self.domains\<close>, binds each variable once and no word twice, and for every pair of
  its variables with overlap offsets \<open>(i, j)\<close> both words reach their offset and
  \<open>word_x[i] = word_y[j]\<close>.
\<close>

theorem solve_solution:
  assumes "wf_crossword cw" and "fst (solve cw ds) = Inr (Some s)"
  shows "(\<forall>v \<in> fst ` set ds. v \<in> fst ` set s)
     \<and> distinct (map fst s) \<and> distinct (map snd s)
     \<and> (\<forall>x y i j wx wy.
          map_of (overlaps cw) (x, y) = Some (Some (i, j)) \<and>
          map_of s x = Some wx \<and> map_of s y = Some wy \<longrightarrow>
          i < length wx \<and> j < length wy \<and> wx ! i = wy ! j)"
proof -
  from solve_Some[OF assms(2)] obtain b ds' where
    ac: "ac3 cw (enforce_node_consistency ds) None = (Inr b, ds')"
    and bt: "fst (backtrack cw ds' []) = Inr (Some s)" by blast
  obtain a' where run: "backtrack cw ds' [] = (Inr (Some s), a')"
    using bt by (cases "backtrack cw ds' []") auto
  from search_outcome(1)[OF run]
  have complete: "assignment_complete ds' s" and dk: "distinct (map fst s)"
    and alt: "s = [] \<or> consistent cw s = Inr True" by auto
  have "map fst ds' = map fst ds"
    using keys_ac3[of cw "enforce_node_consistency ds" None] ac
    by (simp add: keys_enforce_node_consistency)
  then have keys: "fst ` set ds' = fst ` set ds" by (metis set_map)
  have c1: "\<forall>v \<in> fst ` set ds. v \<in> fst ` set s"
    using complete keys assignment_complete_keys by blast
  have c3: "distinct (map snd s)"
    using alt consistent_True(1) by auto
  have c4: "\<forall>x y i j wx wy.
          map_of (overlaps cw) (x, y) = Some (Some (i, j)) \<and>
          map_of s x = Some wx \<and> map_of s y = Some wy \<longrightarrow>
          i < length wx \<and> j < length wy \<and> wx ! i = wy ! j"
  proof (intro allI impI)
    fix x y i j wx wy
    assume h: "map_of (overlaps cw) (x, y) = Some (Some (i, j)) \<and>
          map_of s x = Some wx \<and> map_of s y = Some wy"
    then have "s \<noteq> []" by auto
    with alt have "consistent cw s = Inr True" by simp
    with assms(1) h show "i < length wx \<and> j < length wy \<and> wx ! i = wy ! j"
      by (intro consistent_agrees[of cw s x y]) auto
  qed
  show ?thesis by (intro conjI c1 dk c3 c4)
qed

theorem solve_solution_witness:
  "wf_crossword example
   \<and> fst (solve example (init_domains example))
       = Inr (Some [(slot_D, ''TOP''), (slot_A, ''CAT''), (slot_B, ''HIP'')])
   \<and> distinct (map fst [(slot_D, ''TOP''), (slot_A, ''CAT''), (slot_B, ''HIP'')])
   \<and> distinct (map snd [(slot_D, ''TOP''), (slot_A, ''CAT''), (slot_B, ''HIP'')])
   \<and> ''CAT'' ! 2 = ''TOP'' ! 0"
proof -
  let ?s = "[(slot_D, ''TOP''), (slot_A, ''CAT''), (slot_B, ''HIP'')]"
  have h1: "wf_crossword example" by code_simp
  have h2: "fst (solve example (init_domains example)) = Inr (Some ?s)" by code_simp
  note sol = solve_solution[OF h1 h2]
  have ov: "map_of (overlaps example) (slot_A, slot_D) = Some (Some (2, 0)) \<and>
          map_of ?s slot_A = Some ''CAT'' \<and> map_of ?s slot_D = Some ''TOP''" by code_simp
  note dk = sol[THEN conjunct2, THEN conjunct1]
  note dv = sol[THEN conjunct2, THEN conjunct2, THEN conjunct1]
  note agree = sol[THEN conjunct2, THEN conjunct2, THEN conjunct2, rule_format, OF ov,
      THEN conjunct2, THEN conjunct2]
  show ?thesis by (intro conjI h1 h2 dk dv agree)
qed

subsection \<open>Arc consistency\<close>

lemma revise_cases:
  assumes "revise cw ds x y = (Inr revised, ds')"
    and "map_of (overlaps cw) (x, y) = Some (Some (i, j))"
  obtains dx removed where "map_of ds x = Some dx"
    and "removed_x_words ds y i j dx = Inr removed"
    and "revised = (removed \<noteq> [])"
    and "ds' = AList.update x (filter (\<lambda>w. w \<notin> set removed) dx) ds"
  using assms by (auto simp: revise_def split: option.splits sum.splits)

lemma kept_supported:
  assumes rm: "removed_x_words ds y i j dx = Inr removed" and dy: "map_of ds y = Some dy"
    and w: "w \<in> set dx" and kept: "w \<notin> set removed"
  shows "i < length w \<and> (\<exists>w' \<in> set dy. w' \<noteq> w \<and> j < length w' \<and> w ! i = w' ! j)"
proof -
  from removed_x_words_Inr[OF rm dy] w
  obtain b where b: "all_differ w i j (removeAll w dy) = Inr b"
    and removed: "removed = filter (\<lambda>w. all_differ w i j (removeAll w dy) = Inr True) dx"
    by blast
  from kept w removed have "all_differ w i j (removeAll w dy) \<noteq> Inr True" by simp
  with b have "all_differ w i j (removeAll w dy) = Inr False" by (cases b) auto
  from all_differ_False[OF this] show ?thesis by auto
qed

lemma removed_unsupported:
  assumes rm: "removed_x_words ds y i j dx = Inr removed" and dy: "map_of ds y = Some dy"
    and w: "w \<in> set removed" and w': "w' \<in> set dy" and ne: "w' \<noteq> w"
  shows "w ! i \<noteq> w' ! j"
proof -
  from removed_x_words_Inr(1)[OF rm dy] w
  have "all_differ w i j (removeAll w dy) = Inr True" by simp
  moreover from w' ne have "w' \<in> set (removeAll w dy)" by simp
  ultimately show ?thesis using all_differ_True by blast
qed

text \<open>An arc that \<open>revise\<close> leaves alone is stable.\<close>

lemma revise_False_stable:
  assumes rv: "revise cw ds x y = (Inr False, ds')"
    and ov: "map_of (overlaps cw) (x, y) = Some (Some (i, j))"
  shows "arc_stable ds x y i j"
proof -
  from rv ov obtain dx removed where dx: "map_of ds x = Some dx"
    and rm: "removed_x_words ds y i j dx = Inr removed" and "False = (removed \<noteq> [])"
    by (rule revise_cases)
  then have empty: "removed = []" by simp
  have "i < length w \<and> (\<exists>dy. map_of ds y = Some dy \<and>
          (\<exists>w' \<in> set dy. w' \<noteq> w \<and> j < length w' \<and> w ! i = w' ! j))"
    if w: "w \<in> set dx" for w
  proof -
    from w have "dx \<noteq> []" by auto
    with rm obtain dy where dy: "map_of ds y = Some dy"
      using removed_x_words_needs_y by blast
    from kept_supported[OF rm dy w] empty dy show ?thesis by simp
  qed
  with dx show ?thesis unfolding arc_stable_def by blast
qed

lemma arc_stable_frame:
  assumes "a \<noteq> x" and "b \<noteq> x" and "arc_stable ds a b p q"
  shows "arc_stable (AList.update x d ds) a b p q"
  using assms by (simp add: arc_stable_def update_conv')

lemma arc_stable_shrink:
  assumes "b \<noteq> x" and "map_of ds x = Some dx" and "set d \<subseteq> set dx"
    and "arc_stable ds x b p q"
  shows "arc_stable (AList.update x d ds) x b p q"
  using assms by (auto simp: arc_stable_def update_conv')

text \<open>
  One round of the loop in which \<open>revise(x, y)\<close> removed words: the arcs into \<open>x\<close> from
  its other neighbours are queued again, and the arc from \<open>y\<close> into \<open>x\<close> stays stable,
  because a removed word supported no word of \<open>y\<close>.
\<close>

lemma revise_True_invariant:
  assumes wf: "wf_crossword cw"
    and inv: "arcs_invariant cw ds ((x, y) # arcs)"
    and rv: "revise cw ds x y = (Inr True, ds')"
  shows "arcs_invariant cw ds'
           (rev (map (\<lambda>x_neighbours. (x_neighbours, x)) (removeAll y (neighbors cw x))) @ arcs)"
proof (cases "map_of (overlaps cw) (x, y)")
  case None
  with rv show ?thesis by (simp add: revise_def)
next
  case (Some overlap)
  show ?thesis
  proof (cases overlap)
    case None
    with Some rv show ?thesis by (simp add: revise_def)
  next
    case (Some ij)
    obtain i j where ij: "ij = (i, j)" by (cases ij)
    with Some \<open>map_of (overlaps cw) (x, y) = Some overlap\<close>
    have ov: "map_of (overlaps cw) (x, y) = Some (Some (i, j))" by simp
    from rv ov obtain dx removed where dx: "map_of ds x = Some dx"
      and rm: "removed_x_words ds y i j dx = Inr removed" and "True = (removed \<noteq> [])"
      and ds': "ds' = AList.update x (filter (\<lambda>w. w \<notin> set removed) dx) ds"
      by (rule revise_cases)
    then have "removed \<noteq> []" by simp
    with removed_x_words_subset[OF rm] have "dx \<noteq> []" by auto
    with rm obtain dy where dy: "map_of ds y = Some dy"
      using removed_x_words_needs_y by blast
    note xy = wf_crossword_overlap[OF wf ov]
    let ?dx' = "filter (\<lambda>w. w \<notin> set removed) dx"
    let ?new = "rev (map (\<lambda>x_neighbours. (x_neighbours, x)) (removeAll y (neighbors cw x))) @ arcs"
    have dx': "map_of ds' x = Some ?dx'" by (simp add: ds' update_conv')
    have other: "map_of ds' v = map_of ds v" if "v \<noteq> x" for v
      using that by (simp add: ds' update_conv')
    have stable_xy: "arc_stable ds' x y i j"
    proof -
      have "i < length w \<and> (\<exists>dy. map_of ds' y = Some dy \<and>
              (\<exists>w' \<in> set dy. w' \<noteq> w \<and> j < length w' \<and> w ! i = w' ! j))"
        if "w \<in> set ?dx'" for w
      proof -
        from that have "w \<in> set dx" "w \<notin> set removed" by auto
        from kept_supported[OF rm dy this] other[of y] xy(1) dy show ?thesis by auto
      qed
      with dx' show ?thesis unfolding arc_stable_def by blast
    qed
    have stable_yx: "arc_stable ds' y x j i" if st: "arc_stable ds y x j i"
    proof -
      have "j < length v \<and> (\<exists>d. map_of ds' x = Some d \<and>
              (\<exists>u \<in> set d. u \<noteq> v \<and> i < length u \<and> v ! j = u ! i))"
        if v: "v \<in> set dy" for v
      proof -
        from st dy dx v obtain u where u: "u \<in> set dx" "u \<noteq> v" "i < length u" "v ! j = u ! i"
          and jv: "j < length v"
          unfolding arc_stable_def by auto
        have "u \<notin> set removed"
        proof
          assume "u \<in> set removed"
          from removed_unsupported[OF rm dy this v] u show False by auto
        qed
        with u have "u \<in> set ?dx'" by simp
        with u jv dx' show ?thesis by blast
      qed
      moreover have "map_of ds' y = Some dy" using other[of y] xy(1) dy by auto
      ultimately show ?thesis unfolding arc_stable_def by blast
    qed
    show ?thesis
      unfolding arcs_invariant_def
    proof (intro allI impI)
      fix a b p q
      assume ab: "map_of (overlaps cw) (a, b) = Some (Some (p, q))"
      note ab_wf = wf_crossword_overlap[OF wf ab]
      from inv ab have old: "(a, b) = (x, y) \<or> (a, b) \<in> set arcs \<or> arc_stable ds a b p q"
        unfolding arcs_invariant_def by auto
      show "(a, b) \<in> set ?new \<or> arc_stable ds' a b p q"
      proof (cases "(a, b) \<in> set arcs")
        case True
        then show ?thesis by simp
      next
        case False
        note fresh = this
        show ?thesis
        proof (cases "b = x")
          case True
          note bx = this
          show ?thesis
          proof (cases "a = y")
            case False
            from ab_wf(3) bx have "a \<in> set (neighbors cw x)" by simp
            with False bx show ?thesis by auto
          next
            case True
            with bx ab xy(2) have pq: "p = j" "q = i" by auto
            from True bx xy(1) have "(a, b) \<noteq> (x, y)" by auto
            with old fresh have "arc_stable ds a b p q" by blast
            with True bx pq have "arc_stable ds y x j i" by simp
            from stable_yx[OF this] True bx pq show ?thesis by simp
          qed
        next
          case False
          note bnx = this
          show ?thesis
          proof (cases "a = x")
            case False
            then have "(a, b) \<noteq> (x, y)" by auto
            with old fresh have "arc_stable ds a b p q" by blast
            from arc_stable_frame[OF False bnx this] show ?thesis by (simp add: ds')
          next
            case True
            note ax = this
            show ?thesis
            proof (cases "b = y")
              case True
              with ax ab ov have "p = i" "q = j" by auto
              with stable_xy True ax show ?thesis by simp
            next
              case False
              with ax have "(a, b) \<noteq> (x, y)" by auto
              with old fresh have "arc_stable ds a b p q" by blast
              with ax have "arc_stable ds x b p q" by simp
              from arc_stable_shrink[OF bnx dx _ this, of ?dx'] ax show ?thesis
                by (simp add: ds')
            qed
          qed
        qed
      qed
    qed
  qed
qed

lemma revise_False_invariant:
  assumes inv: "arcs_invariant cw ds ((x, y) # arcs)"
    and rv: "revise cw ds x y = (Inr False, ds')"
  shows "arcs_invariant cw ds' arcs"
proof -
  from rv have same: "ds' = ds" by (rule revise_False_same)
  show ?thesis
    unfolding arcs_invariant_def
  proof (intro allI impI)
    fix a b p q
    assume ab: "map_of (overlaps cw) (a, b) = Some (Some (p, q))"
    from inv ab have old: "(a, b) = (x, y) \<or> (a, b) \<in> set arcs \<or> arc_stable ds a b p q"
      unfolding arcs_invariant_def by auto
    show "(a, b) \<in> set arcs \<or> arc_stable ds' a b p q"
    proof (cases "(a, b) = (x, y)")
      case True
      with ab have "map_of (overlaps cw) (x, y) = Some (Some (p, q))" by simp
      from revise_False_stable[OF rv this] True same show ?thesis by simp
    next
      case False
      with old same show ?thesis by blast
    qed
  qed
qed

lemma ac3_while_invariant:
  "wf_crossword cw \<Longrightarrow> arcs_invariant cw ds arcs \<Longrightarrow>
     ac3_while cw ds arcs = (Inr True, ds') \<Longrightarrow> arcs_invariant cw ds' []"
proof (induction cw ds arcs rule: ac3_while.induct)
  case (1 cw ds)
  then show ?case by simp
next
  case (2 cw ds x y arcs)
  obtain r ds1 where rv: "revise cw ds x y = (r, ds1)" by (cases "revise cw ds x y")
  show ?case
  proof (cases r)
    case (Inl e)
    with rv "2.prems"(3) show ?thesis by simp
  next
    case (Inr revised)
    show ?thesis
    proof (cases revised)
      case False
      with rv Inr have rvF: "revise cw ds x y = (Inr False, ds1)" by simp
      from "2.prems"(3) rv Inr False have run: "ac3_while cw ds1 arcs = (Inr True, ds')" by simp
      from revise_False_invariant[OF "2.prems"(2) rvF]
      have "arcs_invariant cw ds1 arcs" .
      from "2.IH"(2)[OF rv[symmetric] Inr False "2.prems"(1) this run] show ?thesis .
    next
      case True
      with rv Inr have rvT: "revise cw ds x y = (Inr True, ds1)" by simp
      show ?thesis
      proof (cases "map_of ds1 x")
        case None
        with "2.prems"(3) rv Inr True show ?thesis by simp
      next
        case (Some dx)
        show ?thesis
        proof (cases "dx = []")
          case True
          with "2.prems"(3) rv Inr \<open>revised\<close> Some show ?thesis by simp
        next
          case False
          let ?new = "rev (map (\<lambda>x_neighbours. (x_neighbours, x)) (removeAll y (neighbors cw x))) @ arcs"
          from "2.prems"(3) rv Inr \<open>revised\<close> Some False
          have run: "ac3_while cw ds1 ?new = (Inr True, ds')" by simp
          from revise_True_invariant[OF "2.prems"(1,2) rvT]
          have "arcs_invariant cw ds1 ?new" .
          from "2.IH"(1)[OF rv[symmetric] Inr \<open>revised\<close> Some False "2.prems"(1) this run]
          show ?thesis .
        qed
      qed
    qed
  qed
qed

lemma ac3_None_stable:
  assumes wf: "wf_crossword cw" and run: "ac3 cw ds None = (Inr True, ds')"
    and ov: "map_of (overlaps cw) (x, y) = Some (Some (i, j))"
  shows "arc_stable ds' x y i j"
proof -
  have "arcs_invariant cw ds (rev (map fst (overlaps cw)))"
    unfolding arcs_invariant_def
  proof (intro allI impI disjI1)
    fix a b p q
    assume "map_of (overlaps cw) (a, b) = Some (Some (p, q))"
    then have "((a, b), Some (p, q)) \<in> set (overlaps cw)" by (rule map_of_SomeD)
    then have "fst ((a, b), Some (p, q)) \<in> fst ` set (overlaps cw)" by (rule imageI)
    then show "(a, b) \<in> set (rev (map fst (overlaps cw)))" by simp
  qed
  moreover from run have "ac3_while cw ds (rev (map fst (overlaps cw))) = (Inr True, ds')"
    by (simp add: ac3_def)
  ultimately have "arcs_invariant cw ds' []" using wf ac3_while_invariant by blast
  with ov show ?thesis unfolding arcs_invariant_def by auto
qed

text \<open>
  C4: on a well-formed grid, when \<open>ac3()\<close> without an arc list returns True, then for
  every pair of variables \<open>x\<close>, \<open>y\<close> with overlap offsets \<open>(i, j)\<close> and every word \<open>w\<close> left
  in the domain of \<open>x\<close>, the domain of \<open>y\<close> holds a word \<open>w'\<close> with \<open>w[i] = w'[j]\<close>, and
  even one other than \<open>w\<close> itself.
\<close>

theorem ac3_arc_consistent:
  assumes "wf_crossword cw" and "ac3 cw ds None = (Inr True, ds')"
    and "map_of (overlaps cw) (x, y) = Some (Some (i, j))"
    and "map_of ds' x = Some dx" and "w \<in> set dx"
  shows "\<exists>dy w'. map_of ds' y = Some dy \<and> w' \<in> set dy \<and> w' \<noteq> w
           \<and> i < length w \<and> j < length w' \<and> w ! i = w' ! j"
proof -
  from ac3_None_stable[OF assms(1,2,3)] have "arc_stable ds' x y i j" .
  with assms(4,5) show ?thesis unfolding arc_stable_def by fastforce
qed

theorem ac3_arc_consistent_witness:
  "wf_crossword example
   \<and> ac3 example (enforce_node_consistency (init_domains example)) None
       = (Inr True, [(slot_A, [''CAT'']), (slot_D, [''TOP'']), (slot_B, [''HIP''])])
   \<and> map_of (overlaps example) (slot_A, slot_D) = Some (Some (2, 0))
   \<and> map_of [(slot_A, [''CAT'']), (slot_D, [''TOP'']), (slot_B, [''HIP''])] slot_A = Some [''CAT'']
   \<and> ''CAT'' \<in> set [''CAT'']
   \<and> (\<exists>dy w'. map_of [(slot_A, [''CAT'']), (slot_D, [''TOP'']), (slot_B, [''HIP''])] slot_D = Some dy
         \<and> w' \<in> set dy \<and> w' \<noteq> ''CAT''
         \<and> 2 < length ''CAT'' \<and> 0 < length w' \<and> ''CAT'' ! 2 = w' ! 0)"
proof -
  let ?ds' = "[(slot_A, [''CAT'']), (slot_D, [''TOP'']), (slot_B, [''HIP''])]"
  have h1: "wf_crossword example" by code_simp
  have h2: "ac3 example (enforce_node_consistency (init_domains example)) None = (Inr True, ?ds')"
    by code_simp
  have h3: "map_of (overlaps example) (slot_A, slot_D) = Some (Some (2, 0))" by code_simp
  have h4: "map_of ?ds' slot_A = Some [''CAT'']" by code_simp
  have h5: "''CAT'' \<in> set [''CAT'']" by simp
  show ?thesis by (intro conjI h1 h2 h3 h4 h5 ac3_arc_consistent[OF h1 h2 h3 h4 h5])
qed

subsection \<open>Idempotence\<close>

lemma enforce_node_consistency_idem:
  "enforce_node_consistency (enforce_node_consistency ds) = enforce_node_consistency ds"
  by (induction ds) (auto simp: enforce_node_consistency_def)

text \<open>On a stable arc whose reverse is stable too, \<open>revise\<close> reads without raising and removes nothing.\<close>

lemma revise_stable:
  assumes ov: "map_of (overlaps cw) (x, y) = Some (Some (i, j))"
    and xy: "arc_stable ds x y i j" and yx: "arc_stable ds y x j i"
  shows "revise cw ds x y = (Inr False, ds)"
proof -
  from xy obtain dx where dx: "map_of ds x = Some dx"
    and sup: "\<forall>w \<in> set dx. i < length w \<and>
           (\<exists>dy. map_of ds y = Some dy \<and>
              (\<exists>w' \<in> set dy. w' \<noteq> w \<and> j < length w' \<and> w ! i = w' ! j))"
    unfolding arc_stable_def by blast
  have rm: "removed_x_words ds y i j dx = Inr []"
  proof (cases "dx = []")
    case True
    then show ?thesis by simp
  next
    case False
    then obtain w0 where "w0 \<in> set dx" by (cases dx) auto
    with sup obtain dy where dy: "map_of ds y = Some dy" by blast
    from yx dy have long: "\<forall>w' \<in> set dy. j < length w'"
      unfolding arc_stable_def by auto
    from sup have "\<forall>w \<in> set dx. i < length w" by blast
    from removed_x_words_in_range[OF dy this long]
    have "removed_x_words ds y i j dx =
            Inr (filter (\<lambda>w. \<not> (\<exists>w' \<in> set dy. w' \<noteq> w \<and> w ! i = w' ! j)) dx)" .
    moreover have "filter (\<lambda>w. \<not> (\<exists>w' \<in> set dy. w' \<noteq> w \<and> w ! i = w' ! j)) dx = []"
      using sup dy by (auto simp: filter_empty_conv)
    ultimately show ?thesis by simp
  qed
  from revise_overlap[OF ov dx rm] dx show ?thesis by (simp add: update_triv)
qed

lemma ac3_while_stable:
  assumes wf: "wf_crossword cw" and inv: "arcs_invariant cw ds []"
  shows "set arcs \<subseteq> fst ` set (overlaps cw) \<Longrightarrow> ac3_while cw ds arcs = (Inr True, ds)"
proof (induction arcs)
  case Nil
  show ?case by simp
next
  case (Cons arc arcs)
  obtain x y where arc: "arc = (x, y)" by (cases arc)
  with Cons.prems have "(x, y) \<in> fst ` set (overlaps cw)" by simp
  then obtain overlap where ov: "map_of (overlaps cw) (x, y) = Some overlap"
    by (metis domD dom_map_of_conv_image_fst)
  have rv: "revise cw ds x y = (Inr False, ds)"
  proof (cases overlap)
    case None
    with ov show ?thesis by (simp add: revise_def)
  next
    case (Some ij)
    obtain i j where "ij = (i, j)" by (cases ij)
    with Some ov have o: "map_of (overlaps cw) (x, y) = Some (Some (i, j))" by simp
    from wf_crossword_overlap(2)[OF wf o] inv have "arc_stable ds y x j i"
      unfolding arcs_invariant_def by auto
    moreover from o inv have "arc_stable ds x y i j" unfolding arcs_invariant_def by auto
    ultimately show ?thesis using o by (intro revise_stable) auto
  qed
  from Cons.prems have "set arcs \<subseteq> fst ` set (overlaps cw)" by simp
  from Cons.IH[OF this] rv arc show ?case by simp
qed

text \<open>
  C10: a second \<open>enforce_node_consistency\<close> right after the first changes no domain;
  and on a well-formed grid, when \<open>ac3()\<close> returned True, \<open>ac3()\<close> on the resulting
  domains returns True again and leaves every domain as it is.
\<close>

theorem consistency_idempotent:
  "enforce_node_consistency (enforce_node_consistency ds) = enforce_node_consistency ds
   \<and> (wf_crossword cw \<and> ac3 cw ds None = (Inr True, ds') \<longrightarrow>
        ac3 cw ds' None = (Inr True, ds'))"
proof (intro conjI impI)
  show "enforce_node_consistency (enforce_node_consistency ds) = enforce_node_consistency ds"
    by (rule enforce_node_consistency_idem)
next
  assume h: "wf_crossword cw \<and> ac3 cw ds None = (Inr True, ds')"
  then have wf: "wf_crossword cw" and run: "ac3 cw ds None = (Inr True, ds')" by auto
  have "arcs_invariant cw ds' []"
    unfolding arcs_invariant_def using ac3_None_stable[OF wf run] by blast
  from ac3_while_stable[OF wf this, of "rev (map fst (overlaps cw))"]
  show "ac3 cw ds' None = (Inr True, ds')" by (simp add: ac3_def)
qed

theorem consistency_idempotent_witness:
  "wf_crossword example
   \<and> ac3 example (enforce_node_consistency (init_domains example)) None
       = (Inr True, [(slot_A, [''CAT'']), (slot_D, [''TOP'']), (slot_B, [''HIP''])])
   \<and> ac3 example [(slot_A, [''CAT'']), (slot_D, [''TOP'']), (slot_B, [''HIP''])] None
       = (Inr True, [(slot_A, [''CAT'']), (slot_D, [''TOP'']), (slot_B, [''HIP''])])"
proof -
  let ?ds' = "[(slot_A, [''CAT'']), (slot_D, [''TOP'']), (slot_B, [''HIP''])]"
  have h1: "wf_crossword example" by code_simp
  have h2: "ac3 example (enforce_node_consistency (init_domains example)) None = (Inr True, ?ds')"
    by code_simp
  note again = mp[OF consistency_idempotent[THEN conjunct2] conjI[OF h1 h2]]
  show ?thesis by (intro conjI h1 h2 again)
qed

subsection \<open>When propagation empties a domain\<close>

lemma revise_Inl_same: "revise cw ds x y = (Inl e, ds') \<Longrightarrow> ds' = ds"
  by (auto simp: revise_def split: option.splits sum.splits)

lemma revise_other:
  "revise cw ds x y = (r, ds') \<Longrightarrow> v \<noteq> x \<Longrightarrow> map_of ds' v = map_of ds v"
  using revise_result[of cw ds x y r ds'] by (auto simp: update_conv')

text \<open>A domain that the loop of \<open>ac3\<close> empties ends the loop with False.\<close>

lemma ac3_while_emptied:
  "ac3_while cw ds arcs = (r, ds') \<Longrightarrow> map_of ds v = Some d \<Longrightarrow> d \<noteq> [] \<Longrightarrow>
     map_of ds' v = Some [] \<Longrightarrow> r = Inr False"
proof (induction cw ds arcs arbitrary: d rule: ac3_while.induct)
  case (1 cw ds)
  then show ?case by simp
next
  case (2 cw ds x y arcs)
  obtain r1 ds1 where rv: "revise cw ds x y = (r1, ds1)" by (cases "revise cw ds x y")
  show ?case
  proof (cases r1)
    case (Inl e)
    with rv have "revise cw ds x y = (Inl e, ds1)" by simp
    then have "ds1 = ds" by (rule revise_Inl_same)
    with "2.prems" rv Inl show ?thesis by simp
  next
    case (Inr revised)
    show ?thesis
    proof (cases revised)
      case False
      with rv Inr have "revise cw ds x y = (Inr False, ds1)" by simp
      then have "ds1 = ds" by (rule revise_False_same)
      with "2.prems"(2) have dom: "map_of ds1 v = Some d" by simp
      from "2.prems"(1) rv Inr False have run: "ac3_while cw ds1 arcs = (r, ds')" by simp
      from "2.IH"(2)[OF rv[symmetric] Inr False run dom "2.prems"(3,4)] show ?thesis .
    next
      case True
      show ?thesis
      proof (cases "map_of ds1 x")
        case None
        have "v \<noteq> x"
        proof
          assume "v = x"
          with "2.prems"(1,4) rv Inr True None show False by simp
        qed
        from revise_other[OF rv this] "2.prems"(1,2,3,4) rv Inr True None show ?thesis by simp
      next
        case (Some dx)
        show ?thesis
        proof (cases "dx = []")
          case True
          with "2.prems"(1) rv Inr \<open>revised\<close> Some show ?thesis by simp
        next
          case False
          let ?new = "rev (map (\<lambda>x_neighbours. (x_neighbours, x)) (removeAll y (neighbors cw x))) @ arcs"
          from "2.prems"(1) rv Inr \<open>revised\<close> Some False
          have run: "ac3_while cw ds1 ?new = (r, ds')" by simp
          have "\<exists>d1. map_of ds1 v = Some d1 \<and> d1 \<noteq> []"
          proof (cases "v = x")
            case True
            with Some False show ?thesis by simp
          next
            case False
            from revise_other[OF rv this] "2.prems"(2,3) show ?thesis by simp
          qed
          then obtain d1 where "map_of ds1 v = Some d1" "d1 \<noteq> []" by blast
          from "2.IH"(1)[OF rv[symmetric] Inr \<open>revised\<close> Some False run this "2.prems"(4)]
          show ?thesis .
        qed
      qed
    qed
  qed
qed

lemma ac3_while_False:
  "ac3_while cw ds arcs = (Inr False, ds') \<Longrightarrow> \<exists>x. map_of ds' x = Some []"
proof (induction cw ds arcs rule: ac3_while.induct)
  case (1 cw ds)
  then show ?case by simp
next
  case (2 cw ds x y arcs)
  obtain r1 ds1 where rv: "revise cw ds x y = (r1, ds1)" by (cases "revise cw ds x y")
  show ?case
  proof (cases r1)
    case (Inl e)
    with "2.prems" rv show ?thesis by simp
  next
    case (Inr revised)
    show ?thesis
    proof (cases revised)
      case False
      from "2.prems" rv Inr False have "ac3_while cw ds1 arcs = (Inr False, ds')" by simp
      from "2.IH"(2)[OF rv[symmetric] Inr False this] show ?thesis .
    next
      case True
      show ?thesis
      proof (cases "map_of ds1 x")
        case None
        with "2.prems" rv Inr True show ?thesis by simp
      next
        case (Some dx)
        show ?thesis
        proof (cases "dx = []")
          case True
          with "2.prems" rv Inr \<open>revised\<close> Some have "ds' = ds1" by simp
          with Some True show ?thesis by blast
        next
          case False
          let ?new = "rev (map (\<lambda>x_neighbours. (x_neighbours, x)) (removeAll y (neighbors cw x))) @ arcs"
          from "2.prems" rv Inr \<open>revised\<close> Some False
          have "ac3_while cw ds1 ?new = (Inr False, ds')" by simp
          from "2.IH"(1)[OF rv[symmetric] Inr \<open>revised\<close> Some False this] show ?thesis .
        qed
      qed
    qed
  qed
qed

lemma ac3_cases:
  "ac3 cw ds arcs = (Inr True, ds) \<or> (\<exists>work. ac3 cw ds arcs = ac3_while cw ds work)"
  by (auto simp: ac3_def split: option.splits list.splits)

text \<open>With an empty domain in the store, the search from the empty assignment tries no value.\<close>

lemma backtrack_empty_domain:
  assumes dk: "distinct (map fst ds)" and x: "map_of ds x = Some []"
  shows "backtrack cw ds [] = (Inr None, [])"
proof -
  from x have "(x, []) \<in> set ds" by (rule map_of_SomeD)
  then have "x \<in> fst ` set ds" by force
  then have "fst ` set ([] :: assignment) \<subset> fst ` set ds" by auto
  from select_unassigned_variable_some_left[OF dk _ this, of cw]
  obtain var dv where sel: "select_unassigned_variable cw ds [] = Inr var"
    and dv: "map_of ds var = Some dv"
    and least: "\<forall>u du. u \<notin> fst ` set ([] :: assignment) \<and> map_of ds u = Some du \<longrightarrow>
           length dv \<le> length du
           \<and> (length du = length dv \<longrightarrow> length (neighbors cw u) \<le> length (neighbors cw var))"
    by auto
  from least x have "length dv \<le> length ([] :: word list)" by fastforce
  then have "dv = []" by simp
  with dv have ord: "order_domain_values cw ds var [] = Inr []"
    by (simp add: order_domain_values_def)
  have "\<not> assignment_complete ds []"
    using \<open>(x, []) \<in> set ds\<close> by (auto simp: assignment_complete_Nil)
  with sel ord show ?thesis by (simp add: backtrack.simps[of cw ds "[]"])
qed

text \<open>
  C1, as amended: \<open>self.domains\<close> has distinct keys. If a call of \<open>ac3\<close> leaves empty a
  domain that had a word before the call, the call returns False. If \<open>ac3\<close>, called by
  \<open>solve\<close> after node consistency, returns False, then \<open>solve\<close> still calls \<open>backtrack\<close>
  with the empty assignment; that call selects a variable whose domain is empty, tries
  no value and returns \<open>None\<close>, and \<open>solve\<close> returns \<open>None\<close>, having made all three calls.
\<close>

theorem ac3_failure_no_solution:
  assumes "distinct (map fst ds)"
  shows "(ac3 cw ds arcs = (r, ds1) \<and> map_of ds v = Some d \<and> d \<noteq> [] \<and> map_of ds1 v = Some []
            \<longrightarrow> r = Inr False)
     \<and> (ac3 cw (enforce_node_consistency ds) None = (Inr False, ds') \<longrightarrow>
          backtrack cw ds' [] = (Inr None, [])
          \<and> solve cw ds = (Inr None, [Call_enforce_node_consistency, Call_ac3, Call_backtrack]))"
proof (intro conjI impI)
  assume h: "ac3 cw ds arcs = (r, ds1) \<and> map_of ds v = Some d \<and> d \<noteq> [] \<and> map_of ds1 v = Some []"
  from ac3_cases[of cw ds arcs] show "r = Inr False"
  proof
    assume "ac3 cw ds arcs = (Inr True, ds)"
    with h show ?thesis by auto
  next
    assume "\<exists>work. ac3 cw ds arcs = ac3_while cw ds work"
    then obtain work where "ac3 cw ds arcs = ac3_while cw ds work" ..
    with h have "ac3_while cw ds work = (r, ds1)" by simp
    from ac3_while_emptied[OF this] h show ?thesis by blast
  qed
next
  assume run: "ac3 cw (enforce_node_consistency ds) None = (Inr False, ds')"
  then have "ac3_while cw (enforce_node_consistency ds) (rev (map fst (overlaps cw))) = (Inr False, ds')"
    by (simp add: ac3_def)
  then obtain x where x: "map_of ds' x = Some []" using ac3_while_False by blast
  have "map fst ds' = map fst ds"
    using keys_ac3[of cw "enforce_node_consistency ds" None] run
    by (simp add: keys_enforce_node_consistency)
  with assms have "distinct (map fst ds')" by simp
  from backtrack_empty_domain[OF this x]
  show search: "backtrack cw ds' [] = (Inr None, [])" .
  with run show "solve cw ds = (Inr None, [Call_enforce_node_consistency, Call_ac3, Call_backtrack])"
    by (simp add: solve_def)
qed

theorem ac3_failure_no_solution_witness:
  "distinct (map fst (init_domains unsolvable))
   \<and> ac3 unsolvable (enforce_node_consistency (init_domains unsolvable)) None
       = (Inr False, [(slot_A, [''CAT'', ''DOG'']), (slot_D, [''CAT'', ''DOG'']), (slot_B, [])])
   \<and> map_of (enforce_node_consistency (init_domains unsolvable)) slot_B = Some [''CAT'', ''DOG'']
   \<and> map_of [(slot_A, [''CAT'', ''DOG'']), (slot_D, [''CAT'', ''DOG'']), (slot_B, [])] slot_B = Some []
   \<and> backtrack unsolvable [(slot_A, [''CAT'', ''DOG'']), (slot_D, [''CAT'', ''DOG'']), (slot_B, [])] []
       = (Inr None, [])
   \<and> solve unsolvable (init_domains unsolvable)
       = (Inr None, [Call_enforce_node_consistency, Call_ac3, Call_backtrack])"
proof -
  let ?ds1 = "[(slot_A, [''CAT'', ''DOG'']), (slot_D, [''CAT'', ''DOG'']), (slot_B, [])]"
  have h1: "distinct (map fst (init_domains unsolvable))" by code_simp
  have h2: "ac3 unsolvable (enforce_node_consistency (init_domains unsolvable)) None = (Inr False, ?ds1)"
    by code_simp
  have h3: "map_of (enforce_node_consistency (init_domains unsolvable)) slot_B = Some [''CAT'', ''DOG'']"
    by code_simp
  have h4: "map_of ?ds1 slot_B = Some []" by code_simp
  note both = mp[OF ac3_failure_no_solution[OF h1, THEN conjunct2] h2]
  show ?thesis by (intro conjI h1 h2 h3 h4 both[THEN conjunct1] both[THEN conjunct2])
qed

text \<open>
  With the vocabulary CAT, DOG, AB on the example grid, \<open>ac3\<close> returns False and
  \<open>solve\<close> returns \<open>None\<close>, and the calls that \<open>solve\<close> made include the one of
  \<open>backtrack\<close>: the search is invoked.
\<close>

theorem solve_runs_search_counterexample:
  "fst (ac3 unsolvable (enforce_node_consistency (init_domains unsolvable)) None) = Inr False
   \<and> fst (solve unsolvable (init_domains unsolvable)) = Inr None
   \<and> Call_backtrack \<in> set (snd (solve unsolvable (init_domains unsolvable)))"
  by code_simp

end
